theory Spec2Isabelle
  imports Main
begin

section \<open>Strings\<close>

text \<open>
  A JavaScript string is modelled as a \<^typ>\<open>string\<close>: a list of characters with codes
  0 to 255.  The string operations the program uses are written out below with the
  meaning they have on such strings.
\<close>

definition single :: string where
  "single = [CHR 0x0A]"

definition space :: string where
  "space = '' ''"

definition double :: string where
  "double = [CHR 0x0A, CHR 0x0A]"

text \<open>\<open>repeat(str, num)\<close> of the package repeat-string: \<open>num\<close> copies of \<open>str\<close>,
  the empty string when \<open>num\<close> is zero or negative.\<close>

definition repeat :: "string \<Rightarrow> int \<Rightarrow> string" where
  "repeat str num = concat (replicate (nat num) str)"

text \<open>The characters matched by \<open>\s\<close> and removed by \<open>trim()\<close>: tab, line feed,
  vertical tab, form feed, carriage return, space and no-break space.\<close>

definition isSpace :: "char \<Rightarrow> bool" where
  "isSpace c = (c = CHR 0x09 \<or> c = CHR 0x0A \<or> c = CHR 0x0B \<or> c = CHR 0x0C
                \<or> c = CHR 0x0D \<or> c = CHR 0x20 \<or> c = CHR 0xA0)"

text \<open>The characters matched by the class \<open>[ \t]\<close>.\<close>

definition isBlank :: "char \<Rightarrow> bool" where
  "isBlank c = (c = CHR 0x20 \<or> c = CHR 0x09)"

definition trim :: "string \<Rightarrow> string" where
  "trim s = rev (dropWhile isSpace (rev (dropWhile isSpace s)))"

primrec startsWith :: "string \<Rightarrow> string \<Rightarrow> bool" where
  "startsWith [] p = (p = [])"
| "startsWith (c # cs) p = (case p of [] \<Rightarrow> True | d # ds \<Rightarrow> c = d \<and> startsWith cs ds)"

text \<open>\<open>s.indexOf(p) !== -1\<close>: \<open>p\<close> occurs in \<open>s\<close>.\<close>

primrec contains :: "string \<Rightarrow> string \<Rightarrow> bool" where
  "contains [] p = (p = [])"
| "contains (c # cs) p = (startsWith (c # cs) p \<or> contains cs p)"

text \<open>\<open>toLowerCase()\<close> on these strings: the letters A to Z and the upper-case
  letters of the range 0xC0 to 0xDE (all but the multiplication sign 0xD7) move to the
  letter 32 places further.\<close>

definition upperChars :: string where
  "upperChars = ''ABCDEFGHIJKLMNOPQRSTUVWXYZ'' @
     [CHR 0xC0, CHR 0xC1, CHR 0xC2, CHR 0xC3, CHR 0xC4, CHR 0xC5, CHR 0xC6, CHR 0xC7, CHR
      0xC8, CHR 0xC9, CHR 0xCA, CHR 0xCB, CHR 0xCC, CHR 0xCD, CHR 0xCE, CHR 0xCF, CHR 0xD0,
      CHR 0xD1, CHR 0xD2, CHR 0xD3, CHR 0xD4, CHR 0xD5, CHR 0xD6, CHR 0xD8, CHR 0xD9, CHR
      0xDA, CHR 0xDB, CHR 0xDC, CHR 0xDD, CHR 0xDE]"

definition lowerChars :: string where
  "lowerChars = ''abcdefghijklmnopqrstuvwxyz'' @
     [CHR 0xE0, CHR 0xE1, CHR 0xE2, CHR 0xE3, CHR 0xE4, CHR 0xE5, CHR 0xE6, CHR 0xE7, CHR
      0xE8, CHR 0xE9, CHR 0xEA, CHR 0xEB, CHR 0xEC, CHR 0xED, CHR 0xEE, CHR 0xEF, CHR 0xF0,
      CHR 0xF1, CHR 0xF2, CHR 0xF3, CHR 0xF4, CHR 0xF5, CHR 0xF6, CHR 0xF8, CHR 0xF9, CHR
      0xFA, CHR 0xFB, CHR 0xFC, CHR 0xFD, CHR 0xFE]"

definition lowerChar :: "char \<Rightarrow> char" where
  "lowerChar c = (case map_of (zip upperChars lowerChars) c of None \<Rightarrow> c | Some l \<Rightarrow> l)"

definition toLowerCase :: "string \<Rightarrow> string" where
  "toLowerCase s = map lowerChar s"

text \<open>\<open>s.split('\n')\<close>: the pieces between line feeds, always at least one piece.\<close>

primrec splitLines :: "string \<Rightarrow> string list" where
  "splitLines [] = [[]]"
| "splitLines (c # cs) =
     (if c = CHR 0x0A then [] # splitLines cs
      else (case splitLines cs of [] \<Rightarrow> [[c]] | l # ls \<Rightarrow> (c # l) # ls))"

text \<open>\<open>lines.join('\n')\<close>.\<close>

fun joinLines :: "string list \<Rightarrow> string" where
  "joinLines [] = []"
| "joinLines [l] = l"
| "joinLines (l # ls) = l @ single @ joinLines ls"

section \<open>Template-expression detector\<close>

text \<open>
  Each of the three interpolation patterns has the shape
  \<open>open ([\s\S]*?) close\<close>: the opening delimiter, then any text (line feeds
  included), then the closing delimiter.  \<open>test\<close> with \<open>lastIndex\<close> reset to 0
  searches the whole string, so it succeeds when some occurrence of the opening
  delimiter is followed, after its last character, by an occurrence of the closing one.
\<close>

primrec testDelimited :: "string \<Rightarrow> string \<Rightarrow> string \<Rightarrow> bool" where
  "testDelimited opn cls [] = False"
| "testDelimited opn cls (c # cs) =
     ((startsWith (c # cs) opn \<and> contains (drop (length opn) (c # cs)) cls)
      \<or> testDelimited opn cls cs)"

definition DOUBLE_BRACKET_INTERPOLATION_REGEXP :: "string \<Rightarrow> bool" where
  "DOUBLE_BRACKET_INTERPOLATION_REGEXP = testDelimited ''{{'' ''}}''"

definition SINGLE_BRACKET_INTERPOLATION_REGEXP :: "string \<Rightarrow> bool" where
  "SINGLE_BRACKET_INTERPOLATION_REGEXP = testDelimited ''{'' ''}''"

definition ARROW_PERC_INTERPOLATION_REGEXP :: "string \<Rightarrow> bool" where
  "ARROW_PERC_INTERPOLATION_REGEXP = testDelimited ''<%'' ''%>''"

definition isTemplateExpression :: "string \<Rightarrow> bool" where
  "isTemplateExpression v =
     (if ARROW_PERC_INTERPOLATION_REGEXP v then True
      else if DOUBLE_BRACKET_INTERPOLATION_REGEXP v then True
      else if SINGLE_BRACKET_INTERPOLATION_REGEXP v then True
      else False)"

section \<open>Tag behaviour registry\<close>

text \<open>
  A plain JavaScript object inherits the properties of \<open>Object.prototype\<close>.  Both the
  operator \<open>in\<close> and a property read \<open>obj[key]\<close> see these inherited names
  besides the object's own keys.
\<close>

definition Object_prototype_keys :: "string list" where
  "Object_prototype_keys =
     [''constructor'', ''__defineGetter__'', ''__defineSetter__'', ''hasOwnProperty'',
      ''__lookupGetter__'', ''__lookupSetter__'', ''isPrototypeOf'',
      ''propertyIsEnumerable'', ''toString'', ''valueOf'', ''__proto__'',
      ''toLocaleString'']"

text \<open>\<open>key in obj\<close> for a plain object with the own keys \<open>keys\<close>.\<close>

definition js_in :: "string \<Rightarrow> string list \<Rightarrow> bool" where
  "js_in key keys = (List.member keys key \<or> List.member Object_prototype_keys key)"

text \<open>The enumeration \<open>TagContentType\<close> is imported from \<open>./tags\<close>; the
  registry uses its three members.\<close>

datatype TagContentType = RAW_TEXT | ESCAPABLE_RAW_TEXT | PARSABLE_DATA

text \<open>
  An instance of the class \<open>HtmlTagDefinition\<close>.  The objects \<open>closedByChildren\<close>
  and \<open>requiredParents\<close> map tag names to \<open>true\<close>; they are modelled by the
  lists of their own keys.  \<open>requiredParents\<close> and \<open>parentToAdd\<close> stay
  undefined (\<open>None\<close>) unless the constructor is given a non-empty list.
\<close>

record HtmlTagDefinition =
  closedByChildren :: "string list"
  closedByParent :: bool
  requiredParents :: "string list option"
  parentToAdd :: "string option"
  implicitNamespacePrefix :: "string option"
  contentType :: TagContentType
  isVoid :: bool
  ignoreFirstLf :: bool
  canSelfClose :: bool

text \<open>The constructor's argument object; a property that is left out is \<open>None\<close>
  and takes the default of the destructuring pattern.\<close>

record TagDefinitionArgs =
  arg_closedByChildren :: "string list option"
  arg_requiredParents :: "string list option"
  arg_implicitNamespacePrefix :: "string option"
  arg_contentType :: "TagContentType option"
  arg_closedByParent :: "bool option"
  arg_isVoid :: "bool option"
  arg_ignoreFirstLf :: "bool option"

definition noArgs :: TagDefinitionArgs where
  "noArgs = \<lparr> arg_closedByChildren = None, arg_requiredParents = None,
              arg_implicitNamespacePrefix = None, arg_contentType = None,
              arg_closedByParent = None, arg_isVoid = None, arg_ignoreFirstLf = None \<rparr>"

definition orDefault :: "'a option \<Rightarrow> 'a \<Rightarrow> 'a" where
  "orDefault v d = (case v of None \<Rightarrow> d | Some x \<Rightarrow> x)"

definition newHtmlTagDefinition :: "TagDefinitionArgs \<Rightarrow> HtmlTagDefinition" where
  "newHtmlTagDefinition a =
     (let isVoid' = orDefault (arg_isVoid a) False;
          closedByParent' = orDefault (arg_closedByParent a) False;
          required = (case arg_requiredParents a of
                        None \<Rightarrow> None
                      | Some rs \<Rightarrow> if length rs > 0 then Some rs else None)
      in \<lparr> closedByChildren =
             (case arg_closedByChildren a of
                None \<Rightarrow> []
              | Some cs \<Rightarrow> if length cs > 0 then cs else []),
           closedByParent = (closedByParent' \<or> isVoid'),
           requiredParents = required,
           parentToAdd = (case required of None \<Rightarrow> None | Some rs \<Rightarrow> Some (hd rs)),
           implicitNamespacePrefix =
             (case arg_implicitNamespacePrefix a of
                None \<Rightarrow> None
              | Some p \<Rightarrow> if p = [] then None else Some p),
           contentType = orDefault (arg_contentType a) PARSABLE_DATA,
           isVoid = isVoid',
           ignoreFirstLf = orDefault (arg_ignoreFirstLf a) False,
           canSelfClose = False \<rparr>)"

text \<open>\<open>requireExtraParent\<close>: the argument may be missing or empty, which is falsy.
  An inherited property of \<open>requiredParents\<close> is never \<open>true\<close>, so only its own
  keys count.  The constructor's assignment \<open>this.requiredParents['__proto__'] = true\<close>
  creates no key (it is the prototype setter, which ignores a value that is no object),
  so that the entry \<open>__proto__\<close> of the list never counts.\<close>

definition requireExtraParent :: "HtmlTagDefinition \<Rightarrow> string option \<Rightarrow> bool" where
  "requireExtraParent d currentParent =
     (case requiredParents d of
        None \<Rightarrow> False
      | Some rs \<Rightarrow>
          (case currentParent of
             None \<Rightarrow> True
           | Some cp \<Rightarrow>
               if cp = [] then True
               else (let lcParent = toLowerCase cp;
                         isParentTemplate = (lcParent = ''template'' \<or> cp = ''ng-template'')
                     in \<not> isParentTemplate
                        \<and> \<not> (List.member rs lcParent \<and> lcParent \<noteq> ''__proto__''))))"

definition isClosedByChild :: "HtmlTagDefinition \<Rightarrow> string \<Rightarrow> bool" where
  "isClosedByChild d name = (isVoid d \<or> js_in (toLowerCase name) (closedByChildren d))"

text \<open>The table of one formatting mode, in the order of the object literal.\<close>

definition voidDef :: HtmlTagDefinition where
  "voidDef = newHtmlTagDefinition (noArgs\<lparr>arg_isVoid := Some True\<rparr>)"

definition closedDef :: "string list \<Rightarrow> bool \<Rightarrow> HtmlTagDefinition" where
  "closedDef cs byParent =
     newHtmlTagDefinition
       (noArgs\<lparr>arg_closedByChildren := Some cs,
               arg_closedByParent := (if byParent then Some True else None)\<rparr>)"

definition tagTable :: "bool \<Rightarrow> (string \<times> HtmlTagDefinition) list" where
  "tagTable ignoreFirstLf' =
     [(''base'', voidDef), (''meta'', voidDef), (''area'', voidDef), (''embed'', voidDef),
      (''link'', voidDef), (''img'', voidDef), (''input'', voidDef), (''param'', voidDef),
      (''hr'', voidDef), (''br'', voidDef), (''source'', voidDef), (''track'', voidDef),
      (''wbr'', voidDef),
      (''p'', closedDef [''address'', ''article'', ''aside'', ''blockquote'', ''div'', ''dl'',
                        ''fieldset'', ''footer'', ''form'', ''h1'', ''h2'', ''h3'', ''h4'',
                        ''h5'', ''h6'', ''header'', ''hgroup'', ''hr'', ''main'', ''nav'',
                        ''ol'', ''p'', ''pre'', ''section'', ''table'', ''ul''] True),
      (''thead'', closedDef [''tbody'', ''tfoot''] False),
      (''tbody'', closedDef [''tbody'', ''tfoot''] True),
      (''tfoot'', closedDef [''tbody''] True),
      (''tr'', newHtmlTagDefinition
                 (noArgs\<lparr>arg_closedByChildren := Some [''tr''],
                         arg_requiredParents := Some [''tbody'', ''tfoot'', ''thead''],
                         arg_closedByParent := Some True\<rparr>)),
      (''td'', closedDef [''td'', ''th''] True),
      (''th'', closedDef [''td'', ''th''] True),
      (''col'', newHtmlTagDefinition
                  (noArgs\<lparr>arg_requiredParents := Some [''colgroup''],
                          arg_isVoid := Some True\<rparr>)),
      (''svg'', newHtmlTagDefinition (noArgs\<lparr>arg_implicitNamespacePrefix := Some ''svg''\<rparr>)),
      (''math'', newHtmlTagDefinition (noArgs\<lparr>arg_implicitNamespacePrefix := Some ''math''\<rparr>)),
      (''li'', closedDef [''li''] True),
      (''dt'', closedDef [''dt'', ''dd''] False),
      (''dd'', closedDef [''dt'', ''dd''] True),
      (''rb'', closedDef [''rb'', ''rt'', ''rtc'', ''rp''] True),
      (''rt'', closedDef [''rb'', ''rt'', ''rtc'', ''rp''] True),
      (''rtc'', closedDef [''rb'', ''rtc'', ''rp''] True),
      (''rp'', closedDef [''rb'', ''rt'', ''rtc'', ''rp''] True),
      (''optgroup'', closedDef [''optgroup''] True),
      (''option'', closedDef [''option'', ''optgroup''] True),
      (''pre'', newHtmlTagDefinition (noArgs\<lparr>arg_ignoreFirstLf := Some ignoreFirstLf'\<rparr>)),
      (''listing'', newHtmlTagDefinition (noArgs\<lparr>arg_ignoreFirstLf := Some ignoreFirstLf'\<rparr>)),
      (''style'', newHtmlTagDefinition (noArgs\<lparr>arg_contentType := Some RAW_TEXT\<rparr>)),
      (''script'', newHtmlTagDefinition (noArgs\<lparr>arg_contentType := Some RAW_TEXT\<rparr>)),
      (''title'', newHtmlTagDefinition (noArgs\<lparr>arg_contentType := Some ESCAPABLE_RAW_TEXT\<rparr>)),
      (''textarea'', newHtmlTagDefinition
                       (noArgs\<lparr>arg_contentType := Some ESCAPABLE_RAW_TEXT,
                               arg_ignoreFirstLf := Some ignoreFirstLf'\<rparr>))]"

text \<open>
  The module state: the map \<open>TAG_DEFINITIONS\<close> from the cache key (one per value of
  the flag) to a table, and \<open>_DEFAULT_TAG_DEFINITION\<close>, undefined until the first
  table is built.
\<close>

record registry =
  TAG_DEFINITIONS :: "bool \<Rightarrow> (string \<times> HtmlTagDefinition) list option"
  DEFAULT_TAG_DEFINITION :: "HtmlTagDefinition option"

definition initialRegistry :: registry where
  "initialRegistry = \<lparr> TAG_DEFINITIONS = (\<lambda>k. None), DEFAULT_TAG_DEFINITION = None \<rparr>"

text \<open>
  What \<open>getHtmlTagDefinition\<close> returns: a descriptor; or, when the tag name is no own
  key of the table but the name of a property inherited from \<open>Object.prototype\<close>,
  that (truthy) inherited value, which is not a descriptor; or \<open>undefined\<close>, when
  the default was never built.
\<close>

datatype lookupResult = Descriptor HtmlTagDefinition | Inherited string | Undefined

definition getHtmlTagDefinition ::
  "registry \<Rightarrow> string \<Rightarrow> bool \<Rightarrow> lookupResult \<times> registry" where
  "getHtmlTagDefinition r tagName' ignoreFirstLf' =
     (let r' = (case TAG_DEFINITIONS r ignoreFirstLf' of
                  Some t \<Rightarrow> r
                | None \<Rightarrow>
                    \<lparr> TAG_DEFINITIONS = (TAG_DEFINITIONS r)(ignoreFirstLf' \<mapsto> tagTable ignoreFirstLf'),
                      DEFAULT_TAG_DEFINITION = Some (newHtmlTagDefinition noArgs) \<rparr>);
          found = (case TAG_DEFINITIONS r' ignoreFirstLf' of
                     None \<Rightarrow> Undefined
                   | Some t \<Rightarrow>
                       (case map_of t tagName' of
                          Some d \<Rightarrow> Descriptor d
                        | None \<Rightarrow>
                            if List.member Object_prototype_keys tagName' then Inherited tagName'
                            else (case DEFAULT_TAG_DEFINITION r' of
                                    None \<Rightarrow> Undefined
                                  | Some d \<Rightarrow> Descriptor d)))
      in (found, r'))"

text \<open>The states the module can be in: every cached table is the one built for its
  flag, and the default descriptor exists as soon as a table does.\<close>

definition registryOk :: "registry \<Rightarrow> bool" where
  "registryOk r =
     ((TAG_DEFINITIONS r True = None \<or> TAG_DEFINITIONS r True = Some (tagTable True))
      \<and> (TAG_DEFINITIONS r False = None \<or> TAG_DEFINITIONS r False = Some (tagTable False))
      \<and> (DEFAULT_TAG_DEFINITION r = None \<or> DEFAULT_TAG_DEFINITION r = Some (newHtmlTagDefinition noArgs))
      \<and> (DEFAULT_TAG_DEFINITION r = None \<longrightarrow> TAG_DEFINITIONS r True = None \<and> TAG_DEFINITIONS r False = None))"

section \<open>The document tree\<close>

text \<open>
  A node of the syntax tree is one of the five kinds below.  The last field of every
  kind is \<open>data.indentLevel\<close>, absent (\<open>None\<close>) until \<open>setData\<close> writes it.
  An element carries its tag name, its properties and its children.  A leaf has no
  \<open>children\<close> property; the program reads it as \<open>node.children || []\<close>.
\<close>

datatype node =
    Root "node list" "int option"
  | Element string "(string \<times> string) list" "node list" "int option"
  | Text string "int option"
  | Comment string "int option"
  | Doctype "int option"

fun children :: "node \<Rightarrow> node list" where
  "children (Root cs d) = cs"
| "children (Element t ps cs d) = cs"
| "children n = []"

text \<open>\<open>node.children = cs\<close>.  On a leaf the assignment can only store the empty list,
  which reads the same as no list.\<close>

fun setChildren :: "node \<Rightarrow> node list \<Rightarrow> node" where
  "setChildren (Root cs d) cs' = Root cs' d"
| "setChildren (Element t ps cs d) cs' = Element t ps cs' d"
| "setChildren n cs' = n"

fun tagName :: "node \<Rightarrow> string option" where
  "tagName (Element t ps cs d) = Some t"
| "tagName n = None"

fun properties :: "node \<Rightarrow> (string \<times> string) list" where
  "properties (Element t ps cs d) = ps"
| "properties n = []"

fun nodeValue :: "node \<Rightarrow> string option" where
  "nodeValue (Text v d) = Some v"
| "nodeValue (Comment v d) = Some v"
| "nodeValue n = None"

fun indentLevel :: "node \<Rightarrow> int option" where
  "indentLevel (Root cs d) = d"
| "indentLevel (Element t ps cs d) = d"
| "indentLevel (Text v d) = d"
| "indentLevel (Comment v d) = d"
| "indentLevel (Doctype d) = d"

text \<open>\<open>setData(node, 'indentLevel', value)\<close>.\<close>

fun setData :: "node \<Rightarrow> int \<Rightarrow> node" where
  "setData (Root cs d) v = Root cs (Some v)"
| "setData (Element t ps cs d) v = Element t ps cs (Some v)"
| "setData (Text s d) v = Text s (Some v)"
| "setData (Comment s d) v = Comment s (Some v)"
| "setData (Doctype d) v = Doctype (Some v)"

text \<open>The tests \<open>is('text', node)\<close>, \<open>is('comment', node)\<close>, \<open>isElement(node)\<close> and
  \<open>isElement(node, names)\<close>, and \<open>node.type === 'root'\<close>.\<close>

fun isText :: "node \<Rightarrow> bool" where
  "isText (Text v d) = True"
| "isText n = False"

fun isComment :: "node \<Rightarrow> bool" where
  "isComment (Comment v d) = True"
| "isComment n = False"

fun isElement :: "node \<Rightarrow> bool" where
  "isElement (Element t ps cs d) = True"
| "isElement n = False"

fun isElementOf :: "node \<Rightarrow> string list \<Rightarrow> bool" where
  "isElementOf (Element t ps cs d) names = List.member names t"
| "isElementOf n names = False"

fun isRoot :: "node \<Rightarrow> bool" where
  "isRoot (Root cs d) = True"
| "isRoot n = False"

text \<open>The same tests on a value that may be \<open>undefined\<close> (the previous child before
  the first one).\<close>

definition isTextOpt :: "node option \<Rightarrow> bool" where
  "isTextOpt p = (case p of None \<Rightarrow> False | Some n \<Rightarrow> isText n)"

definition isCommentOpt :: "node option \<Rightarrow> bool" where
  "isCommentOpt p = (case p of None \<Rightarrow> False | Some n \<Rightarrow> isComment n)"

text \<open>\<open>toString(node)\<close> of hast-util-to-string: the values of the text nodes below
  the node, in tree order.\<close>

primrec toString :: "node \<Rightarrow> string" where
  "toString (Root cs d) = concat (map toString cs)"
| "toString (Element t ps cs d) = concat (map toString cs)"
| "toString (Text v d) = v"
| "toString (Comment v d) = []"
| "toString (Doctype d) = []"

text \<open>\<open>find(tree, test)\<close> of unist-util-find: the first node in tree order that
  passes the test, the tree's root included.\<close>

primrec firstSome :: "'a option list \<Rightarrow> 'a option" where
  "firstSome [] = None"
| "firstSome (r # rs) = (case r of None \<Rightarrow> firstSome rs | Some x \<Rightarrow> Some x)"

primrec find :: "(node \<Rightarrow> bool) \<Rightarrow> node \<Rightarrow> node option" where
  "find P (Root cs d) =
     (if P (Root cs d) then Some (Root cs d)
      else firstSome (map (find P) cs))"
| "find P (Element t ps cs d) =
     (if P (Element t ps cs d) then Some (Element t ps cs d)
      else firstSome (map (find P) cs))"
| "find P (Text v d) = (if P (Text v d) then Some (Text v d) else None)"
| "find P (Comment v d) = (if P (Comment v d) then Some (Comment v d) else None)"
| "find P (Doctype d) = (if P (Doctype d) then Some (Doctype d) else None)"

definition isPageMode :: "node \<Rightarrow> bool" where
  "isPageMode ast = (find (\<lambda>node. isElementOf node [''html'', ''body'', ''head'']) ast = None)"

section \<open>The formatter's helpers\<close>

text \<open>\<open>/\s*\n\s*$/\<close>: the white space at the end of the value holds a line feed;
  \<open>/^\s*\n/\<close>: the white space at its start does.  An empty value is falsy.\<close>

definition endsWithNewline :: "node option \<Rightarrow> bool" where
  "endsWithNewline p =
     (case p of
        Some (Text v d) \<Rightarrow> v \<noteq> [] \<and> List.member (takeWhile isSpace (rev v)) (CHR 0x0A)
      | _ \<Rightarrow> False)"

definition startsWithNewline :: "node \<Rightarrow> bool" where
  "startsWithNewline n =
     (case n of
        Text v d \<Rightarrow> v \<noteq> [] \<and> List.member (takeWhile isSpace v) (CHR 0x0A)
      | _ \<Rightarrow> False)"

definition containsOnlyTextNodes :: "node list \<Rightarrow> bool" where
  "containsOnlyTextNodes cs = (if length cs = 0 then False else list_all isText cs)"

text \<open>\<open>/^\s+$/\<close>: a non-empty value of white space only.\<close>

definition containsOnlyEmptyTextNodes :: "node list \<Rightarrow> bool" where
  "containsOnlyEmptyTextNodes cs =
     (if length cs = 0 then False
      else list_all (\<lambda>n. case n of Text v d \<Rightarrow> v \<noteq> [] \<and> list_all isSpace v | _ \<Rightarrow> False) cs)"

text \<open>\<open>child.value\<close> is read from any kind of child; where it is missing, the regular
  expressions test the text \<open>undefined\<close>.\<close>

definition handleTemplateExpression :: "node \<Rightarrow> node list \<Rightarrow> bool" where
  "handleTemplateExpression child cs =
     (if isTemplateExpression (case nodeValue child of None \<Rightarrow> ''undefined'' | Some v \<Rightarrow> v)
      then (if containsOnlyTextNodes cs then False
            else if startsWithNewline child then False
            else True)
      else False)"

definition beforeChildNodeAddedHook ::
  "node \<Rightarrow> node list \<Rightarrow> node \<Rightarrow> nat \<Rightarrow> node option \<Rightarrow> bool" where
  "beforeChildNodeAddedHook node cs child index prev =
     (if handleTemplateExpression child cs then True
      else if isCommentOpt prev then True
      else if isElementOf child [''script'', ''style''] \<and> index \<noteq> 0 then True
      else if isRoot node \<and> index = 0 then False
      else \<not> isText child)"

text \<open>The lists of the packages html-void-elements and
  html-whitespace-sensitive-tag-names, the white-space minifier
  (rehype-minify-whitespace with \<open>newlines: true\<close>) and the formatter of embedded
  content (\<open>prettier.format\<close>, called with the content and the parser's name, the
  configured options already merged in) are imported from other packages.  They are
  parameters of the model.  The embedded formatter can throw.\<close>

datatype error = FormatterError string

record env =
  voids :: "string list"
  sensitive :: "string list"
  minify :: "node \<Rightarrow> node"
  prettierFormat :: "string \<Rightarrow> string \<Rightarrow> error + string"

definition isVoid_node :: "'a env_scheme \<Rightarrow> node \<Rightarrow> bool" where
  "isVoid_node E node = (case tagName node of None \<Rightarrow> False | Some t \<Rightarrow> List.member (voids E) t)"

text \<open>\<open>afterChildNodesAddedHook(node, prev)\<close> reads \<open>node.children\<close>, which is the
  list rebuilt so far.\<close>

definition afterChildNodesAddedHook :: "'a env_scheme \<Rightarrow> node \<Rightarrow> node option \<Rightarrow> bool" where
  "afterChildNodesAddedHook E node prev =
     (let hasChilds = length (children node) > 0
      in if hasChilds \<and> \<not> containsOnlyTextNodes (children node) \<and> \<not> isVoid_node E node
         then True
         else hasChilds \<and> \<not> isVoid_node E node \<and> \<not> isTextOpt prev)"

definition isElementAfterConditionalComment ::
  "node \<Rightarrow> node \<Rightarrow> nat \<Rightarrow> node option \<Rightarrow> bool" where
  "isElementAfterConditionalComment node child index prev =
     (case prev of
        Some (Comment v d) \<Rightarrow> contains v ''if'' \<and> isElement child
      | _ \<Rightarrow> False)"

definition isConCommentFollowedByComment ::
  "node \<Rightarrow> node \<Rightarrow> nat \<Rightarrow> node option \<Rightarrow> bool" where
  "isConCommentFollowedByComment node child index prev =
     (case prev of
        Some (Comment v d) \<Rightarrow>
          contains (toLowerCase v) ''if''
          \<and> (case child of Comment w e \<Rightarrow> \<not> contains (toLowerCase w) ''if'' | _ \<Rightarrow> False)
      | _ \<Rightarrow> False)"

text \<open>\<open>ignore(nodes)\<close>: some node of the chain has a tag name in the sensitive list.\<close>

definition ignore :: "'a env_scheme \<Rightarrow> node list \<Rightarrow> bool" where
  "ignore E nodes =
     list_ex (\<lambda>n. case tagName n of None \<Rightarrow> False | Some t \<Rightarrow> List.member (sensitive E) t)
       (rev nodes)"

definition indentPrettierOutput :: "string \<Rightarrow> int \<Rightarrow> string" where
  "indentPrettierOutput formattedText level =
     joinLines (map (\<lambda>l. if length (filter (\<lambda>c. \<not> isSpace c) l) > 0
                          then repeat ''  '' level @ l else l)
                    (splitLines formattedText))"

text \<open>\<open>node.properties.type ? node.properties.type.toLowerCase() : ''\<close>.\<close>

definition lowerProperty :: "node \<Rightarrow> string \<Rightarrow> string" where
  "lowerProperty node key =
     (case map_of (properties node) key of None \<Rightarrow> [] | Some v \<Rightarrow> toLowerCase v)"

definition styleParser :: "node \<Rightarrow> string" where
  "styleParser node =
     (let typeAttr = lowerProperty node ''type''
      in if typeAttr = ''text/x-scss'' then ''scss''
         else if typeAttr = ''text/less'' then ''less''
         else (let langAttr = lowerProperty node ''lang''
               in if langAttr = ''postcss'' then ''css''
                  else if langAttr = ''scss'' then ''scss''
                  else if langAttr = ''less'' then ''less''
                  else ''css''))"

definition scriptParser :: "node \<Rightarrow> string" where
  "scriptParser node =
     (let typeAttr = lowerProperty node ''type''
      in if contains typeAttr ''json'' then ''json''
         else if typeAttr = ''application/x-typescript'' then ''typescript''
         else (let langAttr = lowerProperty node ''lang''
               in if langAttr = ''ts'' \<or> langAttr = ''tsx'' then ''typescript''
                  else ''babylon''))"

text \<open>\<open>formattedText.replace(/<\/script\s*>/g, '<\\/script>')\<close>.  The length of a
  match at the start of the text, if there is one; then the replacement, left to
  right, where \<open>skip\<close> counts the characters of a match still to be dropped.\<close>

definition scriptEndLength :: "string \<Rightarrow> nat option" where
  "scriptEndLength s =
     (if startsWith s ''</script''
      then (let ws = takeWhile isSpace (drop 8 s)
            in case drop (8 + length ws) s of
                 [] \<Rightarrow> None
               | c # cs \<Rightarrow> if c = CHR ''>'' then Some (8 + length ws + 1) else None)
      else None)"

primrec escapeScriptEnd :: "string \<Rightarrow> nat \<Rightarrow> string" where
  "escapeScriptEnd [] skip = []"
| "escapeScriptEnd (c # cs) skip =
     (if skip > 0 then escapeScriptEnd cs (skip - 1)
      else (case scriptEndLength (c # cs) of
              Some n \<Rightarrow> [CHR ''<'', CHR 0x5C, CHR ''/''] @ ''script>'' @ escapeScriptEnd cs (n - 1)
            | None \<Rightarrow> c # escapeScriptEnd cs 0))"

definition prettierEmbeddedContent ::
  "'a env_scheme \<Rightarrow> node \<Rightarrow> int \<Rightarrow> string \<Rightarrow> error + node" where
  "prettierEmbeddedContent E node level indent =
     (if isElementOf node [''style''] then
        (case prettierFormat E (styleParser node) (toString node) of
           Inl e \<Rightarrow> Inl e
         | Inr formattedText \<Rightarrow>
             Inr (setChildren node
                    [Text single None,
                     Text (indentPrettierOutput formattedText level) None,
                     Text (repeat indent (level - 1)) None]))
      else if isElementOf node [''script''] then
        (case prettierFormat E (scriptParser node) (toString node) of
           Inl e \<Rightarrow> Inl e
         | Inr formattedText \<Rightarrow>
             Inr (setChildren node
                    [Text single None,
                     Text (escapeScriptEnd (indentPrettierOutput formattedText level) 0) None,
                     Text (repeat indent (level - 1)) None]))
      else Inr node)"

section \<open>The formatter\<close>

text \<open>The options \<open>format\<close> reads.  A missing or zero \<open>tabWidth\<close> becomes 2;
  \<open>usePrettier\<close> is on unless it is given as \<open>false\<close>.\<close>

record options =
  opt_tabWidth :: "nat option"
  opt_useTabs :: bool
  opt_usePrettier :: "bool option"

text \<open>The variables of the closure \<open>transform\<close> and \<open>visitor\<close> run in:
  \<open>format(options)\<close> computes \<open>indent\<close> and \<open>usePrettier\<close>, and
  \<open>transform(tree)\<close> begins by setting \<open>indentInitial\<close> from its tree.  The
  model's \<open>format\<close> gives the closure of one call of \<open>transform\<close>.\<close>

record closure =
  indent :: string
  usePrettier :: bool
  indentInitial :: bool

definition format :: "options \<Rightarrow> node \<Rightarrow> closure" where
  "format settings tree =
     \<lparr> indent = (if opt_useTabs settings then [CHR 0x09]
                 else repeat space
                        (case opt_tabWidth settings of
                           None \<Rightarrow> 2
                         | Some w \<Rightarrow> if w = 0 then 2 else int w)),
       usePrettier = (opt_usePrettier settings \<noteq> Some False),
       indentInitial = isPageMode tree \<rparr>"

text \<open>What the visitor returns to the traversal: nothing, \<open>visit.SKIP\<close>, or the index
  of the sibling to go on with.\<close>

datatype action = CONTINUE | SKIP | Goto nat

definition level :: "closure \<Rightarrow> node list \<Rightarrow> int" where
  "level S parents =
     (let level = int (length parents)
      in if indentInitial S = False then level - 1 else level)"

text \<open>
  The \<open>prettyhtml-ignore\<close> directive.  \<open>siblings\<close> is \<open>parent.children\<close> and
  \<open>index\<close> the position of the node in it (\<open>parent.children.indexOf(node)\<close>: a
  node occurs once in its parent's list).  The result is the index the visitor returns,
  if it returns here.
\<close>

definition ignoreDirective :: "node \<Rightarrow> node list \<Rightarrow> node list \<Rightarrow> nat \<Rightarrow> nat option" where
  "ignoreDirective node parents siblings index =
     (case node of
        Comment v d \<Rightarrow>
          if contains v ''prettyhtml-ignore'' \<and> parents \<noteq> []
          then (case List.find (\<lambda>i. isElement (siblings ! i)) [index ..< length siblings] of
                  Some i \<Rightarrow> Some (i + 1)
                | None \<Rightarrow> None)
          else None
      | _ \<Rightarrow> None)"

text \<open>The last line of a comment of several lines is trimmed and indented.\<close>

definition indentComment :: "string \<Rightarrow> int \<Rightarrow> node \<Rightarrow> node" where
  "indentComment ind lvl node =
     (case node of
        Comment v d \<Rightarrow>
          (let commentLines = splitLines v
           in if length commentLines > 1
              then Comment (joinLines (butlast commentLines
                                        @ [repeat ind (lvl - 1) @ trim (last commentLines)])) d
              else node)
      | _ \<Rightarrow> node)"

text \<open>The branch of a white-space sensitive node, up to \<open>return visit.SKIP\<close>.\<close>

definition skipSensitive :: "'a env_scheme \<Rightarrow> closure \<Rightarrow> node \<Rightarrow> int \<Rightarrow> error + node" where
  "skipSensitive E S node lvl =
     (let node1 = setData node (lvl - 1)
      in if length (children node) > 0
         then (let empty = containsOnlyEmptyTextNodes (children node);
                   node2 = (if empty then setChildren node1 [] else node1)
               in if usePrettier S \<and> \<not> empty
                  then prettierEmbeddedContent E node2 lvl (indent S)
                  else Inr node2)
         else Inr node1)"

text \<open>The text children of a node that is not the root:
  \<open>value.replace(/^[ \t]+|[ \t]+$/g, '').replace(/\n/g, '$&' + repeat(indent, level))\<close>,
  and the flag \<open>newline\<close>.\<close>

definition stripBlank :: "string \<Rightarrow> string" where
  "stripBlank v = rev (dropWhile isBlank (rev (dropWhile isBlank v)))"

definition indentNewlines :: "string \<Rightarrow> int \<Rightarrow> string \<Rightarrow> string" where
  "indentNewlines ind lvl v =
     concat (map (\<lambda>c. if c = CHR 0x0A then CHR 0x0A # repeat ind lvl else [c]) v)"

definition indentText :: "string \<Rightarrow> int \<Rightarrow> node \<Rightarrow> node" where
  "indentText ind lvl child =
     (case child of
        Text v d \<Rightarrow> Text (indentNewlines ind lvl (stripBlank v)) d
      | _ \<Rightarrow> child)"

definition sawNewline :: "node \<Rightarrow> bool" where
  "sawNewline node =
     (\<not> isRoot node
      \<and> list_ex (\<lambda>c. case c of Text v d \<Rightarrow> contains v single | _ \<Rightarrow> False) (children node))"

text \<open>
  The walk through the children.  \<open>breakBefore\<close> is what one round of the loop pushes
  to \<open>result\<close> before the child itself: a double break, a single break, or nothing.
  In \<open>walk\<close>, \<open>cs\<close> is the whole list \<open>children\<close>, the sixth argument what is
  left of it from \<open>index\<close> on, and \<open>prev\<close> is \<open>prevChild\<close>.
\<close>

definition breakBefore ::
  "string \<Rightarrow> int \<Rightarrow> node \<Rightarrow> node list \<Rightarrow> bool \<Rightarrow> node \<Rightarrow> nat \<Rightarrow> node option \<Rightarrow> node list" where
  "breakBefore ind lvl node cs newline child index prev =
     (if isElementAfterConditionalComment node child index prev
         \<or> isConCommentFollowedByComment node child index prev
      then [Text (double @ repeat ind lvl) None]
      else if (\<not> endsWithNewline prev \<and> beforeChildNodeAddedHook node cs child index prev)
              \<or> (newline \<and> index = 0)
      then [Text (single @ repeat ind lvl) None]
      else [])"

fun walk ::
  "string \<Rightarrow> int \<Rightarrow> node \<Rightarrow> node list \<Rightarrow> bool \<Rightarrow> node list \<Rightarrow> nat \<Rightarrow> node option \<Rightarrow> node list" where
  "walk ind lvl node cs newline [] index prev = []"
| "walk ind lvl node cs newline (c # rest) index prev =
     (let child = setData c lvl
      in breakBefore ind lvl node cs newline child index prev
         @ child # walk ind lvl node cs newline rest (index + 1) (Some child))"

text \<open>The text children after the first loop (the loop leaves at once when the node is
  the root).\<close>

definition indentChildren :: "string \<Rightarrow> int \<Rightarrow> node \<Rightarrow> node list" where
  "indentChildren ind lvl node =
     (if isRoot node then children node else map (indentText ind lvl) (children node))"

text \<open>The new list of children: what the walk pushes, and the closing break when
  \<open>afterChildNodesAddedHook(node, prevChild) || newline\<close>.\<close>

definition closingBreak :: "'a env_scheme \<Rightarrow> node \<Rightarrow> node list \<Rightarrow> node option \<Rightarrow> bool \<Rightarrow> bool" where
  "closingBreak E node result prevChild newline =
     (afterChildNodesAddedHook E (setChildren node result) prevChild \<or> newline)"

definition rebuild :: "'a env_scheme \<Rightarrow> closure \<Rightarrow> int \<Rightarrow> node \<Rightarrow> node list" where
  "rebuild E S lvl node =
     (let newline = sawNewline node;
          cs = indentChildren (indent S) lvl node;
          result = walk (indent S) lvl node cs newline cs 0 None;
          prevChild = (if cs = [] then None else Some (setData (last cs) lvl))
      in result @ (if closingBreak E node result prevChild newline
                   then [Text (single @ repeat (indent S) (lvl - 1)) None]
                   else []))"

text \<open>
  The visitor.  \<open>siblings\<close> and \<open>index\<close> stand for \<open>parent.children\<close> and the
  node's position in it, which the visitor reads through the last entry of
  \<open>parents\<close>; of the parents themselves it reads the number and the tag names.
\<close>

definition visitor ::
  "'a env_scheme \<Rightarrow> closure \<Rightarrow> node \<Rightarrow> node list \<Rightarrow> node list \<Rightarrow> nat \<Rightarrow> error + (node \<times> action)" where
  "visitor E S node0 parents siblings index =
     (let lvl = level S parents
      in case ignoreDirective node0 parents siblings index of
           Some k \<Rightarrow> Inr (node0, Goto k)
         | None \<Rightarrow>
             (let node = indentComment (indent S) lvl node0
              in if ignore E (parents @ [node])
                 then (case skipSensitive E S node lvl of
                         Inl e \<Rightarrow> Inl e
                       | Inr n \<Rightarrow> Inr (n, SKIP))
                 else Inr (setChildren node (rebuild E S lvl node), CONTINUE)))"

text \<open>A bound on the depth of a tree, for the termination of the traversal.\<close>

primrec height :: "node \<Rightarrow> nat" where
  "height (Root cs d) = Suc (foldr max (map (\<lambda>c. Suc (height c)) cs) 0)"
| "height (Element t ps cs d) = Suc (foldr max (map (\<lambda>c. Suc (height c)) cs) 0)"
| "height (Text v d) = 0"
| "height (Comment v d) = 0"
| "height (Doctype d) = 0"

definition heights :: "node list \<Rightarrow> nat" where
  "heights cs = foldr max (map (\<lambda>c. Suc (height c)) cs) 0"

section \<open>The traversal\<close>

text \<open>Facts about the bound: the visitor does not raise it, and an index the visitor
  returns lies after the node's own position.\<close>

lemma heights_Cons [simp]: "heights (c # cs) = max (Suc (height c)) (heights cs)"
  by (simp add: heights_def)

lemma heights_Nil [simp]: "heights [] = 0"
  by (simp add: heights_def)

lemma heights_append [simp]: "heights (xs @ ys) = max (heights xs) (heights ys)"
  by (induction xs) auto

lemma height_children: "heights (children n) \<le> height n"
  by (cases n) (simp_all add: heights_def)

lemma height_setData [simp]: "height (setData n v) = height n"
  by (cases n) simp_all

lemma children_setData [simp]: "children (setData n v) = children n"
  by (cases n) simp_all

lemma children_setChildren: "children (setChildren n cs) = (if isRoot n \<or> isElement n then cs else [])"
  by (cases n) simp_all

lemma height_indentText [simp]: "height (indentText ind lvl c) = height c"
  by (cases c) (simp_all add: indentText_def)

lemma heights_map_indentText [simp]: "heights (map (indentText ind lvl) cs) = heights cs"
  by (induction cs) auto

lemma heights_member: "c \<in> set cs \<Longrightarrow> Suc (height c) \<le> heights cs"
  by (induction cs) auto

lemma heights_drop: "heights (drop k cs) \<le> heights cs"
  by (induction cs arbitrary: k) (auto simp: drop_Cons split: nat.splits intro: le_max_iff_disj[THEN iffD2])

lemma heights_breakBefore: "heights (breakBefore ind lvl node cs newline child index prev) \<le> 1"
  by (simp add: breakBefore_def)

lemma heights_walk: "heights (walk ind lvl node cs newline rest index prev) \<le> max 1 (heights rest)"
proof (induction rest arbitrary: index prev)
  case Nil
  show ?case by simp
next
  case (Cons c rest)
  have b: "heights (breakBefore ind lvl node cs newline (setData c lvl) index prev) \<le> 1"
    by (rule heights_breakBefore)
  from Cons [of "index + 1" "Some (setData c lvl)"] b show ?case
    by (simp add: Let_def)
qed

lemma children_indentComment [simp]: "children (indentComment ind lvl n) = children n"
  by (cases n) (simp_all add: indentComment_def Let_def)

lemma height_indentComment [simp]: "height (indentComment ind lvl n) = height n"
  by (cases n) (simp_all add: indentComment_def Let_def)

lemma isRoot_indentComment [simp]: "isRoot (indentComment ind lvl n) = isRoot n"
  by (cases n) (simp_all add: indentComment_def Let_def)

lemma heights_prettier:
  "prettierEmbeddedContent E n lvl ind = Inr n' \<Longrightarrow> heights (children n') \<le> height n"
  by (cases n) (auto simp: prettierEmbeddedContent_def heights_def split: if_splits sum.splits)

lemma heights_skipSensitive:
  "skipSensitive E S n lvl = Inr n' \<Longrightarrow> heights (children n') \<le> height n"
  by (cases n)
     (auto simp: skipSensitive_def Let_def heights_def split: if_splits dest!: heights_prettier)

lemma heights_indentChildren [simp]: "heights (indentChildren ind lvl n) = heights (children n)"
  by (simp add: indentChildren_def)

lemma heights_rebuild: "heights (rebuild E S lvl n) \<le> Suc (heights (children n))"
  using heights_walk [of "indent S" lvl n "indentChildren (indent S) lvl n" "sawNewline n"
      "indentChildren (indent S) lvl n" 0 None]
  by (auto simp: rebuild_def Let_def)

lemma visitor_heights:
  assumes "visitor E S n parents siblings index = Inr (n', r)"
  shows "heights (children n') \<le> height n"
proof (cases "ignoreDirective n parents siblings index")
  case (Some k)
  with assms show ?thesis by (simp add: visitor_def Let_def height_children)
next
  case None
  let ?node = "indentComment (indent S) (level S parents) n"
  show ?thesis
  proof (cases "ignore E (parents @ [?node])")
    case True
    with assms None have "skipSensitive E S ?node (level S parents) = Inr n'"
      by (auto simp: visitor_def Let_def split: sum.splits)
    from heights_skipSensitive [OF this] show ?thesis by simp
  next
    case False
    with assms None have n': "n' = setChildren ?node (rebuild E S (level S parents) ?node)"
      by (auto simp: visitor_def Let_def)
    have rb: "heights (rebuild E S (level S parents) ?node) \<le> Suc (heights (children n))"
      using heights_rebuild [of E S "level S parents" ?node] by simp
    show ?thesis
    proof (cases n)
      case (Root cs0 d)
      with rb show ?thesis unfolding n' by (simp add: indentComment_def heights_def)
    next
      case (Element t ps cs0 d)
      with rb show ?thesis unfolding n' by (simp add: indentComment_def heights_def)
    next
      case (Text v0 d)
      then show ?thesis unfolding n' by (simp add: indentComment_def)
    next
      case (Comment v0 d)
      then show ?thesis unfolding n' by (simp add: indentComment_def Let_def)
    next
      case (Doctype d)
      then show ?thesis unfolding n' by (simp add: indentComment_def)
    qed
  qed
qed

lemma visitor_Goto:
  assumes "visitor E S n parents siblings index = Inr (n', Goto k)"
  shows "index < k"
  using assms
  by (auto simp: visitor_def Let_def ignoreDirective_def split: option.splits node.splits if_splits sum.splits simp: find_Some_iff)

text \<open>
  \<open>visit(root, visitor)\<close> of unist-util-visit-parents.  \<open>one\<close> calls the visitor
  on a node and, unless the visitor answered \<open>SKIP\<close>, goes through the node's
  children as the visitor left them, with the node added to the chain of parents.
  \<open>all\<close> goes through the list \<open>cs\<close> from \<open>index\<close> on; where the visitor
  answers with a number, it goes on from that index.  The visitor of this program never
  answers \<open>EXIT\<close>.  The nodes are changed in place; the model returns the changed
  node and the changed list.
\<close>

function one and all where
  "one E S node index siblings parents =
     (case visitor E S node parents siblings index of
        Inl e \<Rightarrow> Inl e
      | Inr (node', result) \<Rightarrow>
          if result \<noteq> SKIP
          then (case all E S (children node') (parents @ [node']) 0 of
                  Inl e \<Rightarrow> Inl e
                | Inr cs \<Rightarrow> Inr (setChildren node' cs, result))
          else Inr (node', result))"
| "all E S cs parents index =
     (if index < length cs
      then (case one E S (cs ! index) index cs parents of
              Inl e \<Rightarrow> Inl e
            | Inr (child, result) \<Rightarrow>
                all E S (cs[index := child]) parents
                  (case result of Goto k \<Rightarrow> k | _ \<Rightarrow> index + 1))
      else Inr cs)"
  by pat_completeness auto

lemma one_result:
  assumes "one_all_dom (Inl (E, S, node, index, siblings, parents))"
    and "one E S node index siblings parents = Inr (node', Goto k)"
  shows "index < k"
  using assms(2) unfolding one.psimps [OF assms(1)]
  by (auto split: sum.splits prod.splits if_splits dest: visitor_Goto)

termination one
proof (relation "measures
    [\<lambda>x. case x of
       Inl (E, S, node, index, siblings, parents) \<Rightarrow> 2 * height node + 1
     | Inr (E, S, cs, parents, index) \<Rightarrow> 2 * heights (drop index cs),
     \<lambda>x. case x of
       Inl (E, S, node, index, siblings, parents) \<Rightarrow> 0
     | Inr (E, S, cs, parents, index) \<Rightarrow> length cs - index]", goal_cases)
  case 1
  show ?case by simp
next
  case (2 E S node index siblings parents x node' result)
  then show ?case using visitor_heights [of E S node parents siblings index node' result]
    by simp
next
  case (3 E S cs parents index)
  then have "Suc (height (cs ! index)) \<le> heights (drop index cs)"
    by (intro heights_member) (simp add: set_conv_nth, metis add.right_neutral nth_drop length_drop zero_less_diff le_refl)
  then show ?case by simp
next
  case (4 E S cs parents index x child result)
  define k where "k = (case result of Goto k \<Rightarrow> k | _ \<Rightarrow> index + 1)"
  have "index < k"
  proof (cases result)
    case (Goto j)
    with 4 have "one E S (cs ! index) index cs parents = Inr (child, Goto j)" by simp
    from one_result [OF 4(4) this] Goto show ?thesis by (simp add: k_def)
  qed (simp_all add: k_def)
  then have d: "drop k (cs[index := child]) = drop k cs"
    by simp
  have "heights (drop k cs) \<le> heights (drop index cs)"
    using heights_drop [of "k - index" "drop index cs"] \<open>index < k\<close> by simp
  with d \<open>index < k\<close> 4(1) show ?case unfolding k_def [symmetric]
    by auto
qed

declare one.simps [simp del] all.simps [simp del]

text \<open>\<open>transform(tree)\<close>: the page mode is read from the tree as it is given, then
  the tree is minified and visited.\<close>

definition transform :: "'a env_scheme \<Rightarrow> options \<Rightarrow> node \<Rightarrow> error + node" where
  "transform E settings tree =
     (let S = format settings tree;
          root = minify E tree
      in case one E S root 0 [] [] of
           Inl e \<Rightarrow> Inl e
         | Inr (root', result) \<Rightarrow> Inr root')"

section \<open>Notions used to state the properties\<close>

text \<open>All nodes of a tree, in tree order.\<close>

primrec subnodes :: "node \<Rightarrow> node list" where
  "subnodes (Root cs d) = Root cs d # concat (map subnodes cs)"
| "subnodes (Element t ps cs d) = Element t ps cs d # concat (map subnodes cs)"
| "subnodes (Text v d) = [Text v d]"
| "subnodes (Comment v d) = [Comment v d]"
| "subnodes (Doctype d) = [Doctype d]"

text \<open>A node that carries the annotation \<open>data.indentLevel\<close>.\<close>

definition annotated :: "node \<Rightarrow> bool" where
  "annotated n = (indentLevel n \<noteq> None)"

text \<open>
  An instance of the parameters, for the examples: the two lists as their packages
  publish them, a minifier that finds nothing to remove, and an embedded formatter that
  returns the content as it is.  The example options are the defaults (two spaces,
  embedded formatting on).
\<close>

definition exampleEnv :: env where
  "exampleEnv =
     \<lparr> voids = [''area'', ''base'', ''basefont'', ''bgsound'', ''br'', ''col'', ''command'',
                ''embed'', ''frame'', ''hr'', ''image'', ''img'', ''input'', ''isindex'',
                ''keygen'', ''link'', ''menuitem'', ''meta'', ''nextid'', ''param'',
                ''source'', ''track'', ''wbr''],
       sensitive = [''pre'', ''script'', ''style'', ''textarea''],
       minify = (\<lambda>tree. tree),
       prettierFormat = (\<lambda>parser content. Inr content) \<rparr>"

definition exampleOptions :: options where
  "exampleOptions = \<lparr> opt_tabWidth = None, opt_useTabs = False, opt_usePrettier = None \<rparr>"

text \<open>
  What the traversal leaves of a child \<open>c\<close> that stands below the chain
  \<open>parents\<close>: the child as it is where the traversal jumps over it (after an ignore
  directive), and otherwise what \<open>one\<close> returns for it.
\<close>

definition passed :: "'a env_scheme \<Rightarrow> closure \<Rightarrow> node list \<Rightarrow> node \<Rightarrow> node \<Rightarrow> bool" where
  "passed E S parents c c' =
     (c' = c \<or> (\<exists>index siblings result. one E S c index siblings parents = Inr (c', result)))"

section \<open>Properties of the registry\<close>

lemmas regexp_defs =
  ARROW_PERC_INTERPOLATION_REGEXP_def DOUBLE_BRACKET_INTERPOLATION_REGEXP_def
  SINGLE_BRACKET_INTERPOLATION_REGEXP_def

lemmas lowerChar_defs = toLowerCase_def lowerChar_def upperChars_def lowerChars_def

lemma newHtmlTagDefinition_noArgs:
  "newHtmlTagDefinition noArgs =
     \<lparr> closedByChildren = [], closedByParent = False, requiredParents = None,
       parentToAdd = None, implicitNamespacePrefix = None, contentType = PARSABLE_DATA,
       isVoid = False, ignoreFirstLf = False, canSelfClose = False \<rparr>"
  by (simp add: newHtmlTagDefinition_def noArgs_def orDefault_def)

text \<open>The module starts in a state that satisfies \<open>registryOk\<close>, and every call of
  \<open>getHtmlTagDefinition\<close> keeps it.\<close>

lemma registryOk_initial: "registryOk initialRegistry"
  by (simp add: registryOk_def initialRegistry_def)

lemma registryOk_step: "registryOk r \<Longrightarrow> registryOk (snd (getHtmlTagDefinition r t f))"
  by (cases f) (auto simp: registryOk_def getHtmlTagDefinition_def Let_def split: option.splits)

lemma getHtmlTagDefinition_table:
  assumes "registryOk r"
  shows "fst (getHtmlTagDefinition r t f) =
     (case map_of (tagTable f) t of
        Some d \<Rightarrow> Descriptor d
      | None \<Rightarrow> if List.member Object_prototype_keys t then Inherited t
                else Descriptor (newHtmlTagDefinition noArgs))"
  using assms
  by (cases f) (auto simp: registryOk_def getHtmlTagDefinition_def Let_def split: option.splits)

section \<open>Properties of the visitor\<close>

lemma firstSome_None: "firstSome rs = None \<longleftrightarrow> (\<forall>r \<in> set rs. r = None)"
  by (induction rs) (auto split: option.splits)

lemma find_None: "find P t = None \<longleftrightarrow> \<not> list_ex P (subnodes t)"
  by (induction t) (auto simp: firstSome_None list_ex_iff)

lemma isPageMode_iff:
  "isPageMode ast \<longleftrightarrow> \<not> list_ex (\<lambda>n. isElementOf n [''html'', ''body'', ''head'']) (subnodes ast)"
  by (simp add: isPageMode_def find_None)

lemma indentLevel_setData [simp]: "indentLevel (setData n v) = Some v"
  by (cases n) simp_all

lemma annotated_setData [simp]: "annotated (setData n v)"
  by (simp add: annotated_def)

lemma annotated_Text_None [simp]: "\<not> annotated (Text v None)"
  by (simp add: annotated_def)

lemma breakBefore_cases:
  "breakBefore ind lvl node cs newline child index prev = []
   \<or> breakBefore ind lvl node cs newline child index prev = [Text (single @ repeat ind lvl) None]
   \<or> breakBefore ind lvl node cs newline child index prev = [Text (double @ repeat ind lvl) None]"
  by (simp add: breakBefore_def)

lemma filter_breakBefore [simp]:
  "filter annotated (breakBefore ind lvl node cs newline child index prev) = []"
  using breakBefore_cases [of ind lvl node cs newline child index prev] by auto

lemma walk_annotated:
  "filter annotated (walk ind lvl node cs newline rest index prev) = map (\<lambda>c. setData c lvl) rest"
  by (induction rest arbitrary: index prev) (simp_all add: Let_def)

lemma walk_synthetic:
  "c \<in> set (walk ind lvl node cs newline rest index prev) \<Longrightarrow> \<not> annotated c \<Longrightarrow>
     c = Text (single @ repeat ind lvl) None \<or> c = Text (double @ repeat ind lvl) None"
proof (induction rest arbitrary: index prev)
  case Nil
  then show ?case by simp
next
  case (Cons a rest)
  from Cons.prems breakBefore_cases [of ind lvl node cs newline "setData a lvl" index prev]
  show ?case
    by (auto simp: Let_def dest: Cons.IH)
qed

lemma rebuild_annotated:
  "filter annotated (rebuild E S lvl node)
     = map (\<lambda>c. setData c lvl) (indentChildren (indent S) lvl node)"
  by (simp add: rebuild_def Let_def walk_annotated)

lemma rebuild_synthetic:
  "c \<in> set (rebuild E S lvl node) \<Longrightarrow> \<not> annotated c \<Longrightarrow>
     c = Text (single @ repeat (indent S) lvl) None
     \<or> c = Text (double @ repeat (indent S) lvl) None
     \<or> c = Text (single @ repeat (indent S) (lvl - 1)) None"
  by (auto simp: rebuild_def Let_def split: if_splits dest: walk_synthetic)

lemma visitor_CONTINUE:
  assumes "visitor E S node parents siblings index = Inr (node', CONTINUE)"
  shows "ignoreDirective node parents siblings index = None"
    and "\<not> ignore E (parents @ [indentComment (indent S) (level S parents) node])"
    and "node' = setChildren (indentComment (indent S) (level S parents) node)
                   (rebuild E S (level S parents) (indentComment (indent S) (level S parents) node))"
  using assms by (auto simp: visitor_def Let_def split: option.splits if_splits sum.splits)

lemma visitor_SKIP:
  assumes "visitor E S node parents siblings index = Inr (node', SKIP)"
  shows "ignoreDirective node parents siblings index = None"
    and "ignore E (parents @ [indentComment (indent S) (level S parents) node])"
    and "skipSensitive E S (indentComment (indent S) (level S parents) node) (level S parents) = Inr node'"
  using assms by (auto simp: visitor_def Let_def split: option.splits if_splits sum.splits)

lemma rebuild_leaf: "children n = [] \<Longrightarrow> rebuild E S lvl n = []"
  by (cases n) (simp_all add: rebuild_def indentChildren_def sawNewline_def closingBreak_def afterChildNodesAddedHook_def Let_def)

lemma children_setChildren_rebuild:
  "children (setChildren n (rebuild E S lvl n)) = rebuild E S lvl n"
  by (cases n) (simp_all add: rebuild_leaf)

lemma tagName_indentComment [simp]: "tagName (indentComment ind lvl n) = tagName n"
  by (cases n) (simp_all add: indentComment_def Let_def)

lemma visitor_children:
  assumes "visitor E S node parents siblings index = Inr (node', CONTINUE)"
  shows "children node' = rebuild E S (level S parents) (indentComment (indent S) (level S parents) node)"
  using visitor_CONTINUE(3) [OF assms] by (simp add: children_setChildren_rebuild)

lemma indentChildren_indentComment [simp]:
  "indentChildren ind lvl (indentComment ind' lvl' n) = indentChildren ind lvl n"
  by (cases n) (simp_all add: indentComment_def indentChildren_def Let_def)

lemma level_format:
  "level (format settings tree) parents
     = int (length parents)
       - (if list_ex (\<lambda>n. isElementOf n [''html'', ''body'', ''head'']) (subnodes tree) then 1 else 0)"
  by (simp add: level_def format_def isPageMode_iff Let_def)

lemma visitor_children_levels:
  assumes "visitor E S node parents siblings index = Inr (node', CONTINUE)"
  shows "map indentLevel (filter annotated (children node'))
           = replicate (length (children node)) (Some (level S parents))"
proof -
  have "length (indentChildren (indent S) (level S parents) node) = length (children node)"
    by (simp add: indentChildren_def)
  then show ?thesis
    unfolding visitor_children [OF assms] rebuild_annotated
    by (simp add: map_replicate_const comp_def)
qed

lemma filter_dropWhile: "(\<And>x. Q x \<Longrightarrow> \<not> P x) \<Longrightarrow> filter P (dropWhile Q xs) = filter P xs"
  by (induction xs) auto

lemma isBlank_isSpace: "isBlank c \<Longrightarrow> isSpace c"
  by (auto simp: isBlank_def isSpace_def)

lemma filter_stripBlank: "filter (\<lambda>c. \<not> isSpace c) (stripBlank v) = filter (\<lambda>c. \<not> isSpace c) v"
proof -
  have "filter (\<lambda>c. \<not> isSpace c) (rev (dropWhile isBlank (rev (dropWhile isBlank v))))
      = rev (filter (\<lambda>c. \<not> isSpace c) (dropWhile isBlank (rev (dropWhile isBlank v))))"
    by (simp only: rev_filter)
  also have "\<dots> = rev (filter (\<lambda>c. \<not> isSpace c) (rev (dropWhile isBlank v)))"
    by (simp add: filter_dropWhile isBlank_isSpace)
  also have "\<dots> = filter (\<lambda>c. \<not> isSpace c) (dropWhile isBlank v)"
    by (simp add: rev_filter)
  also have "\<dots> = filter (\<lambda>c. \<not> isSpace c) v"
    by (simp add: filter_dropWhile isBlank_isSpace)
  finally show ?thesis by (simp add: stripBlank_def)
qed

lemma filter_repeat: "list_all isSpace ind \<Longrightarrow> filter (\<lambda>c. \<not> isSpace c) (repeat ind k) = []"
  by (induction "nat k" arbitrary: k) (auto simp: repeat_def list_all_iff filter_empty_conv)

lemma filter_indentNewlines:
  "list_all isSpace ind \<Longrightarrow>
     filter (\<lambda>c. \<not> isSpace c) (indentNewlines ind lvl v) = filter (\<lambda>c. \<not> isSpace c) v"
proof (induction v)
  case Nil
  show ?case by (simp add: indentNewlines_def)
next
  case (Cons a v)
  have nl: "isSpace (CHR 0x0A)" by (simp add: isSpace_def)
  from Cons show ?case
    by (simp add: indentNewlines_def filter_repeat nl)
qed

lemma indentText_content:
  "list_all isSpace ind \<Longrightarrow>
     filter (\<lambda>c. \<not> isSpace c) (toString (indentText ind lvl c)) = filter (\<lambda>c. \<not> isSpace c) (toString c)"
  by (cases c) (simp_all add: indentText_def filter_indentNewlines filter_stripBlank)

lemma indentText_other: "\<not> isText c \<Longrightarrow> indentText ind lvl c = c"
  by (cases c) (simp_all add: indentText_def)

lemma indent_format_space: "list_all isSpace (indent (format settings tree))"
  by (auto simp: format_def repeat_def space_def isSpace_def list_all_iff split: option.splits)

lemma single_replicate: "single = replicate 1 (CHR 0x0A)" and double_replicate: "double = replicate 2 (CHR 0x0A)"
  by (simp_all add: single_def double_def eval_nat_numeral)

text \<open>The traversal below a node leaves the annotations of the node's children as the
  visitor wrote them.\<close>

lemma indentLevel_setChildren [simp]: "indentLevel (setChildren n cs) = indentLevel n"
  by (cases n) simp_all

lemma tagName_setChildren [simp]: "tagName (setChildren n cs) = tagName n"
  by (cases n) simp_all

lemma tagName_setData [simp]: "tagName (setData n v) = tagName n"
  by (cases n) simp_all

lemma indentLevel_indentComment [simp]: "indentLevel (indentComment ind lvl n) = indentLevel n"
  by (cases n) (simp_all add: indentComment_def Let_def)

lemma prettierEmbeddedContent_data:
  "prettierEmbeddedContent E n lvl ind = Inr n' \<Longrightarrow>
     indentLevel n' = indentLevel n \<and> tagName n' = tagName n"
  by (auto simp: prettierEmbeddedContent_def split: if_splits sum.splits)

lemma skipSensitive_data:
  "skipSensitive E S n lvl = Inr n' \<Longrightarrow> indentLevel n' = Some (lvl - 1) \<and> tagName n' = tagName n"
  by (auto simp: skipSensitive_def Let_def split: if_splits dest!: prettierEmbeddedContent_data)

lemma ignore_snoc:
  "ignore E (ps @ [n]) =
     (ignore E ps \<or> (case tagName n of None \<Rightarrow> False | Some t \<Rightarrow> List.member (sensitive E) t))"
  by (auto simp: ignore_def)

lemma visitor_Goto_node:
  "visitor E S n ps sibs idx = Inr (n', Goto k) \<Longrightarrow> n' = n"
  by (auto simp: visitor_def Let_def split: option.splits if_splits sum.splits)

lemma visitor_tagName:
  assumes "visitor E S n ps sibs idx = Inr (n', r)"
  shows "tagName n' = tagName n"
proof (cases r)
  case CONTINUE
  with assms visitor_CONTINUE(3) [of E S n ps sibs idx n'] show ?thesis by simp
next
  case SKIP
  with assms visitor_SKIP(3) [of E S n ps sibs idx n'] show ?thesis
    by (auto dest!: skipSensitive_data)
next
  case (Goto k)
  with assms show ?thesis by (auto dest: visitor_Goto_node)
qed

lemma visitor_indentLevel:
  assumes "visitor E S n ps sibs idx = Inr (n', r)"
  shows "indentLevel n' = (if r = SKIP then Some (level S ps - 1) else indentLevel n)"
proof (cases r)
  case CONTINUE
  with assms visitor_CONTINUE(3) [of E S n ps sibs idx n'] show ?thesis by simp
next
  case SKIP
  with assms visitor_SKIP(3) [of E S n ps sibs idx n'] show ?thesis
    by (auto dest!: skipSensitive_data)
next
  case (Goto k)
  with assms show ?thesis by (auto dest: visitor_Goto_node)
qed

lemma one_visitor:
  assumes "one E S n idx sibs ps = Inr (n', r)"
  shows "\<exists>v. visitor E S n ps sibs idx = Inr (v, r)
           \<and> indentLevel n' = indentLevel v \<and> tagName n' = tagName v
           \<and> (r = SKIP \<longrightarrow> n' = v)
           \<and> (r \<noteq> SKIP \<longrightarrow>
                 (\<exists>cs. all E S (children v) (ps @ [v]) 0 = Inr cs \<and> n' = setChildren v cs))"
  using assms
  by (auto simp: one.simps split: sum.splits if_splits)

lemma one_data:
  assumes "one E S n idx sibs ps = Inr (n', r)"
    and "\<not> ignore E ps"
    and "tagName n \<noteq> None \<Longrightarrow> indentLevel n = Some (level S ps - 1)"
  shows "indentLevel n' = indentLevel n \<and> tagName n' = tagName n"
proof -
  from one_visitor [OF assms(1)] obtain v where v: "visitor E S n ps sibs idx = Inr (v, r)"
    and d: "indentLevel n' = indentLevel v" and t: "tagName n' = tagName v"
    by blast
  show ?thesis
  proof (cases "r = SKIP")
    case True
    with v have "ignore E (ps @ [indentComment (indent S) (level S ps) n])"
      by (auto dest: visitor_SKIP(2))
    with assms(2) have "tagName n \<noteq> None"
      by (auto simp: ignore_snoc split: option.splits)
    with assms(3) True visitor_indentLevel [OF v] visitor_tagName [OF v] d t show ?thesis
      by simp
  next
    case False
    with visitor_indentLevel [OF v] visitor_tagName [OF v] d t show ?thesis by simp
  qed
qed

lemma all_data:
  "all E S cs ps idx = Inr cs' \<Longrightarrow> \<not> ignore E ps \<Longrightarrow>
   (\<forall>c \<in> set cs. tagName c \<noteq> None \<longrightarrow> indentLevel c = Some (level S ps - 1)) \<Longrightarrow>
   map indentLevel cs' = map indentLevel cs \<and> map tagName cs' = map tagName cs"
proof (induction E S cs ps idx arbitrary: cs'
    rule: one_all.induct(2) [where P = "\<lambda>E S node index siblings parents. True"])
  case (1 E S node index siblings parents)
  show ?case by simp
next
  case (2 E S cs parents index)
  show ?case
  proof (cases "index < length cs")
    case False
    with "2.prems"(1) show ?thesis by (simp add: all.simps)
  next
    case True
    with "2.prems"(1) obtain child result where
      o: "one E S (cs ! index) index cs parents = Inr (child, result)"
      and a: "all E S (cs[index := child]) parents (case result of Goto k \<Rightarrow> k | _ \<Rightarrow> index + 1) = Inr cs'"
      by (subst (asm) all.simps) (auto split: sum.splits)
    from True "2.prems"(3) have inv: "tagName (cs ! index) \<noteq> None \<Longrightarrow> indentLevel (cs ! index) = Some (level S parents - 1)"
      by simp
    from one_data [OF o "2.prems"(2) inv]
    have c: "indentLevel child = indentLevel (cs ! index)" "tagName child = tagName (cs ! index)"
      by simp_all
    have inv': "\<forall>c \<in> set (cs[index := child]). tagName c \<noteq> None \<longrightarrow> indentLevel c = Some (level S parents - 1)"
      using "2.prems"(3) c True
      by (auto simp: set_conv_nth nth_list_update)
    from "2.IH" [OF True o refl a "2.prems"(2) inv']
    have "map indentLevel cs' = map indentLevel (cs[index := child])"
      and "map tagName cs' = map tagName (cs[index := child])" by simp_all
    with c True show ?thesis
      by (simp add: map_update list_update_same_conv)
  qed
qed

lemma map_indentLevel_annotated:
  "map indentLevel xs = map indentLevel ys \<Longrightarrow>
     map indentLevel (filter annotated xs) = map indentLevel (filter annotated ys)"
proof (induction xs arbitrary: ys)
  case Nil
  then show ?case by simp
next
  case (Cons x xs)
  then obtain y ys' where ys: "ys = y # ys'" by (cases ys) auto
  with Cons.prems have "indentLevel x = indentLevel y" "map indentLevel xs = map indentLevel ys'"
    by simp_all
  with Cons.IH [of ys'] ys show ?case by (simp add: annotated_def)
qed

lemma rebuild_invariant:
  "c \<in> set (rebuild E S lvl n) \<Longrightarrow> tagName c \<noteq> None \<Longrightarrow> indentLevel c = Some lvl"
proof -
  assume c: "c \<in> set (rebuild E S lvl n)" and t: "tagName c \<noteq> None"
  have "annotated c"
  proof (rule ccontr)
    assume "\<not> annotated c"
    from rebuild_synthetic [OF c this] t show False by auto
  qed
  with c have "c \<in> set (filter annotated (rebuild E S lvl n))" by simp
  then show ?thesis unfolding rebuild_annotated by auto
qed

lemma level_snoc: "level S (ps @ [n]) = level S ps + 1"
  by (simp add: level_def Let_def)

lemma one_children_levels:
  assumes "one E S node index siblings parents = Inr (node', CONTINUE)"
  shows "indentLevel node' = indentLevel node"
    and "map indentLevel (filter annotated (children node'))
           = replicate (length (children node)) (Some (level S parents))"
proof -
  from one_visitor [OF assms] obtain v cs where v: "visitor E S node parents siblings index = Inr (v, CONTINUE)"
    and d: "indentLevel node' = indentLevel v"
    and a: "all E S (children v) (parents @ [v]) 0 = Inr cs" and n': "node' = setChildren v cs"
    by auto
  from visitor_indentLevel [OF v] d show "indentLevel node' = indentLevel node" by simp
  let ?node = "indentComment (indent S) (level S parents) node"
  have ch: "children v = rebuild E S (level S parents) ?node"
    by (rule visitor_children [OF v])
  have ni: "\<not> ignore E (parents @ [v])"
    using visitor_CONTINUE(2) [OF v] visitor_tagName [OF v] by (simp add: ignore_snoc)
  have inv: "\<forall>c \<in> set (children v). tagName c \<noteq> None \<longrightarrow> indentLevel c = Some (level S (parents @ [v]) - 1)"
    unfolding ch level_snoc by (auto dest: rebuild_invariant)
  from all_data [OF a ni inv] have m: "map indentLevel cs = map indentLevel (children v)"
    by simp
  then have len: "length cs = length (children v)"
    by (rule map_eq_imp_length_eq)
  have "children node' = cs"
    unfolding n' using len by (cases v) simp_all
  with map_indentLevel_annotated [OF m] visitor_children_levels [OF v]
  show "map indentLevel (filter annotated (children node'))
           = replicate (length (children node)) (Some (level S parents))"
    by simp
qed

lemma one_SKIP_level:
  assumes "one E S node index siblings parents = Inr (node', SKIP)"
  shows "indentLevel node' = Some (level S parents - 1)"
proof -
  from one_visitor [OF assms] obtain v where v: "visitor E S node parents siblings index = Inr (v, SKIP)"
    and d: "indentLevel node' = indentLevel v"
    by auto
  from visitor_indentLevel [OF v] d show ?thesis by simp
qed

lemma transform_root:
  assumes "transform E settings tree = Inr root'" and "isRoot (minify E tree)"
  shows "indentLevel root' = indentLevel (minify E tree)"
proof -
  from assms(1) obtain r where o: "one E (format settings tree) (minify E tree) 0 [] [] = Inr (root', r)"
    by (auto simp: transform_def Let_def split: sum.splits)
  from one_visitor [OF this] obtain v where v: "visitor E (format settings tree) (minify E tree) [] [] 0 = Inr (v, r)"
    and d: "indentLevel root' = indentLevel v"
    by auto
  from assms(2) have "\<not> ignore E ([] @ [indentComment (indent (format settings tree)) (level (format settings tree) []) (minify E tree)])"
    by (cases "minify E tree") (simp_all add: ignore_def indentComment_def)
  with v have "r \<noteq> SKIP" by (auto dest: visitor_SKIP(2))
  with visitor_indentLevel [OF v] d show ?thesis by simp
qed

text \<open>The walk, piece by piece.\<close>

lemma walk_append:
  "walk ind lvl node cs newline (xs @ ys) index prev
     = walk ind lvl node cs newline xs index prev
       @ walk ind lvl node cs newline ys (index + length xs)
           (if xs = [] then prev else Some (setData (last xs) lvl))"
  by (induction xs arbitrary: index prev) (simp_all add: Let_def)

lemma isElement_setData [simp]: "isElement (setData n v) = isElement n"
  by (cases n) simp_all

lemma walk_conditional:
  assumes "contains v ''if''" and "isElement c"
  shows "walk ind lvl node cs newline (Comment v d # c # rest) index prev
     = breakBefore ind lvl node cs newline (Comment v (Some lvl)) index prev
       @ [Comment v (Some lvl), Text (double @ repeat ind lvl) None, setData c lvl]
       @ walk ind lvl node cs newline rest (index + 2) (Some (setData c lvl))"
  using assms
  by (simp add: Let_def breakBefore_def [of _ _ _ _ _ "setData c lvl"] isElementAfterConditionalComment_def)

lemma walk_conditional_mid:
  assumes "contains v ''if''" and "isElement c"
  shows "\<exists>pre' post'. walk ind lvl node cs newline (pre @ Comment v d # c # post) index prev
           = pre' @ [Comment v (Some lvl), Text (double @ repeat ind lvl) None, setData c lvl]
             @ post'"
proof -
  let ?prev = "if pre = [] then prev else Some (setData (last pre) lvl)"
  have "walk ind lvl node cs newline (pre @ Comment v d # c # post) index prev
      = (walk ind lvl node cs newline pre index prev
         @ breakBefore ind lvl node cs newline (Comment v (Some lvl)) (index + length pre) ?prev)
        @ [Comment v (Some lvl), Text (double @ repeat ind lvl) None, setData c lvl]
        @ walk ind lvl node cs newline post (index + length pre + 2) (Some (setData c lvl))"
    by (simp only: walk_append walk_conditional [OF assms] append_assoc)
  then show ?thesis by blast
qed

lemma rebuild_conditional:
  assumes "children node = pre @ Comment v d # c # post" and "contains v ''if''" and "isElement c"
  shows "\<exists>pre' post'. rebuild E S lvl node
           = pre' @ [Comment v (Some lvl), Text (double @ repeat (indent S) lvl) None,
                     setData c lvl] @ post'"
proof -
  let ?f = "\<lambda>x. if isRoot node then x else indentText (indent S) lvl x"
  let ?cs = "indentChildren (indent S) lvl node"
  have cs: "?cs = map ?f pre @ Comment v d # ?f c # map ?f post"
    using assms(1) by (simp add: indentChildren_def indentText_def)
  have fc: "isElement (?f c)" "setData (?f c) lvl = setData c lvl"
    using assms(3) by (cases c; simp add: indentText_def)+
  from walk_conditional_mid [OF assms(2) fc(1), of "indent S" lvl node ?cs "sawNewline node"
      "map ?f pre" d "map ?f post" 0 None]
  obtain pre' post' where
    w: "walk (indent S) lvl node ?cs (sawNewline node)
          (map ?f pre @ Comment v d # ?f c # map ?f post) 0 None
        = pre' @ [Comment v (Some lvl), Text (double @ repeat (indent S) lvl) None,
                  setData c lvl] @ post'"
    unfolding fc(2) by blast
  have "walk (indent S) lvl node ?cs (sawNewline node) ?cs 0 None
        = pre' @ [Comment v (Some lvl), Text (double @ repeat (indent S) lvl) None,
                  setData c lvl] @ post'"
    using w cs by simp
  then have "\<exists>post''. rebuild E S lvl node
        = pre' @ [Comment v (Some lvl), Text (double @ repeat (indent S) lvl) None,
                  setData c lvl] @ post''"
    by (simp add: rebuild_def Let_def)
  then show ?thesis by blast
qed

lemma visitor_rebuilds:
  assumes "isRoot node \<or> isElement node" and "\<not> ignore E (parents @ [node])"
  shows "visitor E S node parents siblings index
           = Inr (setChildren node (rebuild E S (level S parents) node), CONTINUE)"
  using assms by (cases node) (simp_all add: visitor_def ignoreDirective_def indentComment_def Let_def)

lemma children_rebuilt:
  assumes "isRoot node \<or> isElement node"
  shows "children (setChildren node cs) = cs"
  using assms by (cases node) simp_all

lemma walk_Nil_iff: "walk ind lvl node cs newline rest index prev = [] \<longleftrightarrow> rest = []"
  by (cases rest) (simp_all add: Let_def)

lemma walk_last:
  "rest \<noteq> [] \<Longrightarrow> last (walk ind lvl node cs newline rest index prev) = setData (last rest) lvl"
  by (induction rest arbitrary: index prev) (auto simp: Let_def walk_Nil_iff)

lemma afterChildNodesAddedHook_void:
  "isVoid_node E node \<Longrightarrow> afterChildNodesAddedHook E (setChildren node cs) prev = False"
  by (simp add: afterChildNodesAddedHook_def isVoid_node_def Let_def)

text \<open>The branch of a white-space sensitive element.\<close>

lemma visitor_sensitive:
  assumes "ignore E (parents @ [Element t ps cs d])"
  shows "visitor E S (Element t ps cs d) parents siblings index
           = (case skipSensitive E S (Element t ps cs d) (level S parents) of
                Inl e \<Rightarrow> Inl e
              | Inr n \<Rightarrow> Inr (n, SKIP))"
  using assms by (simp add: visitor_def ignoreDirective_def indentComment_def Let_def)


lemma skipSensitive_plain:
  assumes "\<not> (usePrettier S \<and> cs \<noteq> [] \<and> \<not> containsOnlyEmptyTextNodes cs
              \<and> (t = ''style'' \<or> t = ''script''))"
  shows "skipSensitive E S (Element t ps cs d) lvl
           = Inr (Element t ps (if containsOnlyEmptyTextNodes cs then [] else cs) (Some (lvl - 1)))"
  using assms
  by (auto simp: skipSensitive_def prettierEmbeddedContent_def Let_def containsOnlyEmptyTextNodes_def)

lemma skipSensitive_style:
  assumes "usePrettier S" and "cs \<noteq> []" and "\<not> containsOnlyEmptyTextNodes cs"
  shows "skipSensitive E S (Element ''style'' ps cs d) lvl
           = (case prettierFormat E (styleParser (Element ''style'' ps cs (Some (lvl - 1))))
                     (concat (map toString cs)) of
                Inl e \<Rightarrow> Inl e
              | Inr formattedText \<Rightarrow>
                  Inr (Element ''style'' ps
                         [Text single None,
                          Text (indentPrettierOutput formattedText lvl) None,
                          Text (repeat (indent S) (lvl - 1)) None] (Some (lvl - 1))))"
  using assms
  by (auto simp: skipSensitive_def prettierEmbeddedContent_def Let_def split: sum.splits)

lemma skipSensitive_script:
  assumes "usePrettier S" and "cs \<noteq> []" and "\<not> containsOnlyEmptyTextNodes cs"
  shows "skipSensitive E S (Element ''script'' ps cs d) lvl
           = (case prettierFormat E (scriptParser (Element ''script'' ps cs (Some (lvl - 1))))
                     (concat (map toString cs)) of
                Inl e \<Rightarrow> Inl e
              | Inr formattedText \<Rightarrow>
                  Inr (Element ''script'' ps
                         [Text single None,
                          Text (escapeScriptEnd (indentPrettierOutput formattedText lvl) 0) None,
                          Text (repeat (indent S) (lvl - 1)) None] (Some (lvl - 1))))"
  using assms
  by (auto simp: skipSensitive_def prettierEmbeddedContent_def Let_def split: sum.splits)

text \<open>A node outside every white-space sensitive subtree is rebuilt, unless it is a
  comment with the ignore directive, which has no children.\<close>

lemma ignore_indentComment [simp]:
  "ignore E (ps @ [indentComment ind lvl n]) = ignore E (ps @ [n])"
  by (simp add: ignore_snoc)

lemma ignoreDirective_leaf: "ignoreDirective n ps sibs idx = Some k \<Longrightarrow> children n = []"
  by (cases n) (simp_all add: ignoreDirective_def)

lemma visitor_not_ignored:
  assumes "\<not> ignore E (parents @ [node])"
  shows "\<exists>node' r. visitor E S node parents siblings index = Inr (node', r) \<and> r \<noteq> SKIP
           \<and> children node'
               = rebuild E S (level S parents) (indentComment (indent S) (level S parents) node)"
proof (cases "ignoreDirective node parents siblings index")
  case None
  with assms show ?thesis
    by (simp add: visitor_def Let_def children_setChildren_rebuild)
next
  case (Some k)
  from ignoreDirective_leaf [OF Some]
  have "rebuild E S (level S parents) (indentComment (indent S) (level S parents) node) = []"
    by (simp add: rebuild_leaf)
  with Some ignoreDirective_leaf [OF Some] show ?thesis
    by (simp add: visitor_def Let_def)
qed

section \<open>Properties of the detector's patterns\<close>

lemma startsWith_iff: "startsWith s p \<longleftrightarrow> (\<exists>r. s = p @ r)"
proof (induction s arbitrary: p)
  case Nil
  show ?case by auto
next
  case (Cons c cs)
  show ?case by (cases p) (auto simp: Cons.IH)
qed

lemma contains_iff: "contains s p \<longleftrightarrow> (\<exists>a b. s = a @ p @ b)"
proof (induction s)
  case Nil
  show ?case by auto
next
  case (Cons c cs)
  have "(\<exists>a b. c # cs = a @ p @ b) \<longleftrightarrow> (\<exists>b. c # cs = p @ b) \<or> (\<exists>a b. cs = a @ p @ b)"
  proof
    assume "\<exists>a b. c # cs = a @ p @ b"
    then obtain a b where e: "c # cs = a @ p @ b" by blast
    show "(\<exists>b. c # cs = p @ b) \<or> (\<exists>a b. cs = a @ p @ b)"
    proof (cases a)
      case Nil
      with e show ?thesis by auto
    next
      case (Cons x a')
      with e have "cs = a' @ p @ b" by simp
      then show ?thesis by blast
    qed
  next
    assume "(\<exists>b. c # cs = p @ b) \<or> (\<exists>a b. cs = a @ p @ b)"
    then show "\<exists>a b. c # cs = a @ p @ b"
    proof
      assume "\<exists>b. c # cs = p @ b"
      then obtain b where "c # cs = [] @ p @ b" by auto
      then show ?thesis by blast
    next
      assume "\<exists>a b. cs = a @ p @ b"
      then obtain a b where "c # cs = (c # a) @ p @ b" by auto
      then show ?thesis by blast
    qed
  qed
  with Cons.IH show ?case by (simp add: startsWith_iff)
qed

lemma testDelimited_iff:
  assumes "opn \<noteq> []"
  shows "testDelimited opn cls s \<longleftrightarrow> (\<exists>pre mid post. s = pre @ opn @ mid @ cls @ post)"
proof (induction s)
  case Nil
  from assms show ?case by simp
next
  case (Cons c cs)
  have here: "startsWith (c # cs) opn \<and> contains (drop (length opn) (c # cs)) cls
                \<longleftrightarrow> (\<exists>mid post. c # cs = opn @ mid @ cls @ post)"
    by (fastforce simp: startsWith_iff contains_iff)
  have "(\<exists>pre mid post. c # cs = pre @ opn @ mid @ cls @ post)
          \<longleftrightarrow> (\<exists>mid post. c # cs = opn @ mid @ cls @ post)
              \<or> (\<exists>pre mid post. cs = pre @ opn @ mid @ cls @ post)"
  proof
    assume "\<exists>pre mid post. c # cs = pre @ opn @ mid @ cls @ post"
    then obtain pre mid post where e: "c # cs = pre @ opn @ mid @ cls @ post" by blast
    show "(\<exists>mid post. c # cs = opn @ mid @ cls @ post)
              \<or> (\<exists>pre mid post. cs = pre @ opn @ mid @ cls @ post)"
    proof (cases pre)
      case Nil
      with e show ?thesis by auto
    next
      case (Cons x pre')
      with e have "cs = pre' @ opn @ mid @ cls @ post" by simp
      then show ?thesis by blast
    qed
  next
    assume "(\<exists>mid post. c # cs = opn @ mid @ cls @ post)
              \<or> (\<exists>pre mid post. cs = pre @ opn @ mid @ cls @ post)"
    then show "\<exists>pre mid post. c # cs = pre @ opn @ mid @ cls @ post"
    proof
      assume "\<exists>mid post. c # cs = opn @ mid @ cls @ post"
      then obtain mid post where "c # cs = [] @ opn @ mid @ cls @ post" by auto
      then show ?thesis by blast
    next
      assume "\<exists>pre mid post. cs = pre @ opn @ mid @ cls @ post"
      then obtain pre mid post where "c # cs = (c # pre) @ opn @ mid @ cls @ post" by auto
      then show ?thesis by blast
    qed
  qed
  with here Cons.IH show ?case by simp
qed

section \<open>What the traversal leaves of the children\<close>

lemma one_next:
  assumes "one E S c i cs ps = Inr (c', r)"
  shows "i < (case r of Goto k \<Rightarrow> k | _ \<Rightarrow> i + 1)"
proof (cases r)
  case (Goto k)
  from one_visitor [OF assms] obtain v where "visitor E S c ps cs i = Inr (v, r)" by blast
  with Goto visitor_Goto [of E S c ps cs i v k] show ?thesis by simp
qed simp_all

lemma all_passed_from:
  "all E S cs ps idx = Inr cs' \<Longrightarrow>
     length cs' = length cs
     \<and> (\<forall>j<idx. cs' ! j = cs ! j)
     \<and> (\<forall>j. idx \<le> j \<and> j < length cs \<longrightarrow> passed E S ps (cs ! j) (cs' ! j))"
proof (induction E S cs ps idx arbitrary: cs'
    rule: one_all.induct(2) [where P = "\<lambda>E S node index siblings parents. True"])
  case (1 E S node index siblings parents)
  show ?case by simp
next
  case (2 E S cs parents index)
  show ?case
  proof (cases "index < length cs")
    case False
    with "2.prems" have "cs' = cs" by (simp add: all.simps)
    with False show ?thesis by (simp add: passed_def)
  next
    case True
    with "2.prems" obtain child result where
      o: "one E S (cs ! index) index cs parents = Inr (child, result)"
      and a: "all E S (cs[index := child]) parents (case result of Goto k \<Rightarrow> k | _ \<Rightarrow> index + 1) = Inr cs'"
      by (subst (asm) all.simps) (auto split: sum.splits)
    let ?next = "case result of Goto k \<Rightarrow> k | _ \<Rightarrow> index + 1"
    have nx: "index < ?next" by (rule one_next [OF o])
    from "2.IH" [OF True o refl a]
    have len: "length cs' = length cs"
      and low: "\<And>j. j < ?next \<Longrightarrow> cs' ! j = (cs[index := child]) ! j"
      and high: "\<And>j. ?next \<le> j \<Longrightarrow> j < length cs \<Longrightarrow> passed E S parents ((cs[index := child]) ! j) (cs' ! j)"
      by simp_all
    have p: "passed E S parents (cs ! index) child"
      using o unfolding passed_def by blast
    have "cs' ! j = cs ! j" if "j < index" for j
      using low [of j] that nx by simp
    moreover have "passed E S parents (cs ! j) (cs' ! j)" if "index \<le> j" "j < length cs" for j
    proof (cases "j = index")
      case True
      with low [of j] nx \<open>j < length cs\<close> p show ?thesis by simp
    next
      case False
      show ?thesis
      proof (cases "j < ?next")
        case True
        with low [of j] False show ?thesis by (simp add: passed_def)
      next
        case False
        with high [of j] that \<open>j \<noteq> index\<close> show ?thesis by simp
      qed
    qed
    ultimately show ?thesis using len by blast
  qed
qed

lemma all_passed:
  assumes "all E S cs ps 0 = Inr cs'"
  shows "list_all2 (passed E S ps) cs cs'"
  using all_passed_from [OF assms] by (simp add: list_all2_conv_all_nth)

text \<open>After the pass below a node that was rebuilt, its children are, place by place,
  what the traversal leaves of the rebuilt list.\<close>

lemma one_rebuilt:
  assumes "one E S node index siblings parents = Inr (node', r)"
    and "isRoot node \<or> isElement node" and "\<not> ignore E (parents @ [node])"
  shows "r = CONTINUE
     \<and> \<not> ignore E (parents @ [setChildren node (rebuild E S (level S parents) node)])
     \<and> list_all2 (passed E S (parents @ [setChildren node (rebuild E S (level S parents) node)]))
          (rebuild E S (level S parents) node) (children node')"
proof -
  let ?v = "setChildren node (rebuild E S (level S parents) node)"
  have v: "visitor E S node parents siblings index = Inr (?v, CONTINUE)"
    by (rule visitor_rebuilds [OF assms(2,3)])
  from one_visitor [OF assms(1)] v have r: "r = CONTINUE" by auto
  with one_visitor [OF assms(1)] v obtain cs where
    a: "all E S (children ?v) (parents @ [?v]) 0 = Inr cs" and n: "node' = setChildren ?v cs"
    by auto
  have cv: "children ?v = rebuild E S (level S parents) node"
    by (rule children_rebuilt [OF assms(2)])
  have "children node' = cs"
    unfolding n using assms(2) by (cases node) simp_all
  with all_passed [OF a] cv r assms(3) show ?thesis
    by (simp add: ignore_snoc)
qed

text \<open>What is left of a text node, of a comment and of an annotated child.\<close>

lemma all_Nil: "all E S [] ps 0 = Inr []"
  by (simp add: all.simps)

lemma one_Text:
  assumes "\<not> ignore E ps"
  shows "one E S (Text v d) i sibs ps = Inr (Text v d, CONTINUE)"
proof -
  have "visitor E S (Text v d) ps sibs i = Inr (Text v d, CONTINUE)"
    using assms
    by (simp add: visitor_def ignoreDirective_def indentComment_def ignore_snoc rebuild_leaf Let_def)
  then show ?thesis by (simp add: one.simps all_Nil)
qed

lemma passed_Text:
  assumes "passed E S ps (Text v d) c'" and "\<not> ignore E ps"
  shows "c' = Text v d"
  using assms by (auto simp: passed_def one_Text)

lemma one_Comment:
  assumes "one E S (Comment v d) i sibs ps = Inr (c', r)" and "\<not> ignore E ps"
  shows "c' = Comment v d \<or> c' = indentComment (indent S) (level S ps) (Comment v d)"
proof -
  from one_visitor [OF assms(1)] obtain w where
    w: "visitor E S (Comment v d) ps sibs i = Inr (w, r)"
    and s: "r = SKIP \<longrightarrow> c' = w"
    and n: "r \<noteq> SKIP \<longrightarrow> (\<exists>cs. c' = setChildren w cs)"
    by blast
  have ni: "\<not> ignore E (ps @ [indentComment (indent S) (level S ps) (Comment v d)])"
    using assms(2) by (simp add: ignore_snoc)
  show ?thesis
  proof (cases r)
    case CONTINUE
    from visitor_CONTINUE(3) [of E S "Comment v d" ps sibs i w] w CONTINUE
    have "w = indentComment (indent S) (level S ps) (Comment v d)"
      by (simp add: indentComment_def Let_def)
    with n CONTINUE show ?thesis by (auto simp: indentComment_def Let_def)
  next
    case SKIP
    with w visitor_SKIP(2) [of E S "Comment v d" ps sibs i w] ni show ?thesis by simp
  next
    case (Goto k)
    with w have "w = Comment v d" by (auto dest: visitor_Goto_node)
    with n Goto show ?thesis by auto
  qed
qed

lemma passed_Comment:
  assumes "passed E S ps (Comment v d) c'" and "\<not> ignore E ps"
  shows "c' = Comment v d \<or> c' = indentComment (indent S) (level S ps) (Comment v d)"
  using assms by (auto simp: passed_def dest: one_Comment)

lemma passed_data:
  assumes "passed E S ps c c'" and "\<not> ignore E ps"
    and "indentLevel c = Some (level S ps - 1)"
  shows "indentLevel c' = Some (level S ps - 1) \<and> tagName c' = tagName c"
  using assms by (auto simp: passed_def dest: one_data)

lemma isElement_tagName: "isElement n \<longleftrightarrow> tagName n \<noteq> None"
  by (cases n) simp_all

lemma transform_one:
  assumes "transform E settings tree = Inr root'"
  shows "\<exists>r. one E (format settings tree) (minify E tree) 0 [] [] = Inr (root', r)"
  using assms by (auto simp: transform_def Let_def split: sum.splits)

lemma ignore_Root: "\<not> ignore E ([] @ [Root cs d])"
  by (simp add: ignore_def)

lemma list_all2_three:
  assumes "list_all2 P (xs @ [a, b, c] @ ys) zs"
  shows "\<exists>us a' b' c' vs. zs = us @ [a', b', c'] @ vs \<and> P a a' \<and> P b b' \<and> P c c'"
proof -
  from assms obtain us ws where z: "zs = us @ ws" and w: "list_all2 P ([a, b, c] @ ys) ws"
    by (auto simp: list_all2_append1)
  from w obtain a' b' c' vs where "ws = [a', b', c'] @ vs" "P a a'" "P b b'" "P c c'"
    by (auto simp: list_all2_Cons1)
  with z show ?thesis by blast
qed

lemma conditional_after_pass:
  assumes o: "one E S node index siblings parents = Inr (node', r)"
    and ni: "\<not> ignore E (parents @ [node])"
    and ch: "children node = pre @ Comment v d # c # post"
    and "contains v ''if''" and el: "isElement c"
  shows "\<exists>pre' post' cm c'.
           children node'
             = pre' @ [cm, Text (double @ repeat (indent S) (level S parents)) None, c'] @ post'
           \<and> (cm = Comment v (Some (level S parents))
                \<or> cm = indentComment (indent S) (level S parents + 1)
                          (Comment v (Some (level S parents))))
           \<and> isElement c' \<and> tagName c' = tagName c
           \<and> indentLevel c' = Some (level S parents)"
proof -
  let ?lvl = "level S parents"
  define V where "V = setChildren node (rebuild E S ?lvl node)"
  from ch have k: "isRoot node \<or> isElement node" by (cases node) simp_all
  from one_rebuilt [OF o k ni]
  have nv: "\<not> ignore E (parents @ [V])"
    and la: "list_all2 (passed E S (parents @ [V])) (rebuild E S ?lvl node) (children node')"
    unfolding V_def by simp_all
  from rebuild_conditional [OF ch assms(4) el, of E S ?lvl] obtain p q where
    rb: "rebuild E S ?lvl node
           = p @ [Comment v (Some ?lvl), Text (double @ repeat (indent S) ?lvl) None,
                  setData c ?lvl] @ q"
    by blast
  from la rb
  have "list_all2 (passed E S (parents @ [V]))
          (p @ [Comment v (Some ?lvl), Text (double @ repeat (indent S) ?lvl) None,
                setData c ?lvl] @ q) (children node')"
    by simp
  from list_all2_three [OF this] obtain us cm tx c' vs where
    cn: "children node' = us @ [cm, tx, c'] @ vs"
    and p1: "passed E S (parents @ [V]) (Comment v (Some ?lvl)) cm"
    and p2: "passed E S (parents @ [V]) (Text (double @ repeat (indent S) ?lvl) None) tx"
    and p3: "passed E S (parents @ [V]) (setData c ?lvl) c'"
    by blast
  have l: "level S (parents @ [V]) = ?lvl + 1" by (rule level_snoc)
  from passed_Text [OF p2 nv] have tx: "tx = Text (double @ repeat (indent S) ?lvl) None" .
  from passed_Comment [OF p1 nv]
  have cm: "cm = Comment v (Some ?lvl)
            \<or> cm = indentComment (indent S) (?lvl + 1) (Comment v (Some ?lvl))"
    unfolding l .
  have "indentLevel (setData c ?lvl) = Some (level S (parents @ [V]) - 1)"
    unfolding l by simp
  from passed_data [OF p3 nv this]
  have c': "indentLevel c' = Some ?lvl" "tagName c' = tagName c"
    unfolding l by simp_all
  with el have "isElement c'" by (simp add: isElement_tagName)
  with cn tx cm c' show ?thesis by blast
qed

text \<open>A child that the visitor annotates stands in the rebuilt list, and so something is
  left of it after the pass.\<close>

lemma list_all2_member:
  assumes "list_all2 P xs ys" and "x \<in> set xs"
  shows "\<exists>y \<in> set ys. P x y"
  using assms by (induction rule: list_all2_induct) auto

lemma rebuild_member:
  assumes "c \<in> set (indentChildren (indent S) lvl node)"
  shows "setData c lvl \<in> set (rebuild E S lvl node)"
proof -
  from assms have "setData c lvl \<in> set (map (\<lambda>c. setData c lvl) (indentChildren (indent S) lvl node))"
    by simp
  then have "setData c lvl \<in> set (filter annotated (rebuild E S lvl node))"
    by (simp only: rebuild_annotated)
  then show ?thesis by simp
qed

lemma element_indentChildren:
  assumes "Element t ps cs d \<in> set (children node)"
  shows "Element t ps cs d \<in> set (indentChildren ind lvl node)"
proof -
  have "indentText ind lvl (Element t ps cs d) = Element t ps cs d"
    by (simp add: indentText_def)
  with assms show ?thesis
    by (auto simp: indentChildren_def image_iff intro!: bexI [of _ "Element t ps cs d"])
qed

lemma child_after_pass:
  assumes o: "one E S node index siblings parents = Inr (node', r)"
    and ni: "\<not> ignore E (parents @ [node])"
    and mem: "Element t ps cs d \<in> set (children node)"
  shows "\<exists>x \<in> set (children node'). \<exists>V. \<not> ignore E (parents @ [V])
           \<and> level S (parents @ [V]) = level S parents + 1
           \<and> passed E S (parents @ [V]) (Element t ps cs (Some (level S parents))) x"
proof -
  let ?lvl = "level S parents"
  let ?V = "setChildren node (rebuild E S ?lvl node)"
  from mem have k: "isRoot node \<or> isElement node" by (cases node) auto
  from one_rebuilt [OF o k ni]
  have nv: "\<not> ignore E (parents @ [?V])"
    and la: "list_all2 (passed E S (parents @ [?V])) (rebuild E S ?lvl node) (children node')"
    by simp_all
  from rebuild_member [OF element_indentChildren [OF mem, of "indent S" ?lvl], of E]
  have "Element t ps cs (Some ?lvl) \<in> set (rebuild E S ?lvl node)" by simp
  from list_all2_member [OF la this] nv level_snoc [of S parents ?V] show ?thesis by blast
qed




text \<open>The child list of a void element after the visitor, and after the pass.\<close>

lemma list_all2_last:
  assumes "list_all2 P xs ys" and "xs \<noteq> []"
  shows "ys \<noteq> [] \<and> P (last xs) (last ys)"
proof -
  from assms(1) have l: "length xs = length ys" by (rule list_all2_lengthD)
  with assms(2) have y: "ys \<noteq> []" by auto
  from assms(2) have "length xs - 1 < length xs" by (cases xs) simp_all
  from list_all2_nthD [OF assms(1) this] l y assms(2) show ?thesis
    by (simp add: last_conv_nth)
qed

lemma void_rebuild:
  assumes "isVoid_node E node"
  shows "rebuild E S lvl node
       = walk (indent S) lvl node (indentChildren (indent S) lvl node) (sawNewline node)
           (indentChildren (indent S) lvl node) 0 None
         @ (if sawNewline node then [Text (single @ repeat (indent S) (lvl - 1)) None] else [])"
  by (simp add: rebuild_def closingBreak_def afterChildNodesAddedHook_void [OF assms] Let_def)

lemma setData_annotated: "annotated (setData n v)"
  by (cases n) (simp_all add: annotated_def)

lemma setData_indentLevel: "indentLevel (setData n v) = Some v"
  by (cases n) simp_all

lemma walk_ends:
  "walk ind lvl node cs newline rest index prev = []
   \<or> (annotated (last (walk ind lvl node cs newline rest index prev))
      \<and> indentLevel (last (walk ind lvl node cs newline rest index prev)) = Some lvl)"
  by (cases "rest = []") (simp_all add: walk_last setData_annotated setData_indentLevel)

lemma skipSensitive_cases:
  assumes "skipSensitive E S (Element t ps cs d) lvl = Inr n"
  shows "n = Element t ps cs (Some (lvl - 1))
       \<or> (containsOnlyEmptyTextNodes cs \<and> n = Element t ps [] (Some (lvl - 1)))
       \<or> (usePrettier S \<and> cs \<noteq> [] \<and> \<not> containsOnlyEmptyTextNodes cs
           \<and> (t = ''style'' \<or> t = ''script'')
           \<and> (\<exists>f. n = Element t ps
                        [Text single None, Text f None, Text (repeat (indent S) (lvl - 1)) None]
                        (Some (lvl - 1))))"
proof (cases "usePrettier S \<and> cs \<noteq> [] \<and> \<not> containsOnlyEmptyTextNodes cs
               \<and> (t = ''style'' \<or> t = ''script'')")
  case False
  from assms show ?thesis unfolding skipSensitive_plain [OF False] by auto
next
  case True
  then have u: "usePrettier S" "cs \<noteq> []" "\<not> containsOnlyEmptyTextNodes cs" by simp_all
  from True have "t = ''style'' \<or> t = ''script''" by simp
  then show ?thesis
  proof
    assume t: "t = ''style''"
    from assms [unfolded t skipSensitive_style [OF u]] t u show ?thesis
      by (auto split: sum.splits)
  next
    assume t: "t = ''script''"
    from assms [unfolded t skipSensitive_script [OF u]] t u show ?thesis
      by (auto split: sum.splits)
  qed
qed

lemma void_after_pass:
  assumes o: "one E S node index siblings parents = Inr (node', r)"
    and v: "isVoid_node E node"
    and ni: "\<not> ignore E (parents @ [node])"
  shows "r = CONTINUE
       \<and> (sawNewline node \<longrightarrow>
            children node' \<noteq> []
            \<and> last (children node') = Text (single @ repeat (indent S) (level S parents - 1)) None)
       \<and> (\<not> sawNewline node \<longrightarrow> children node' = [] \<or> annotated (last (children node')))"
proof -
  let ?lvl = "level S parents"
  let ?V = "setChildren node (rebuild E S ?lvl node)"
  let ?cs = "indentChildren (indent S) ?lvl node"
  let ?w = "walk (indent S) ?lvl node ?cs (sawNewline node) ?cs 0 None"
  let ?c = "Text (single @ repeat (indent S) (?lvl - 1)) None"
  from v have k: "isRoot node \<or> isElement node"
    by (cases node) (simp_all add: isVoid_node_def)
  from one_rebuilt [OF o k ni]
  have r: "r = CONTINUE" and nv: "\<not> ignore E (parents @ [?V])"
    and la: "list_all2 (passed E S (parents @ [?V])) (rebuild E S ?lvl node) (children node')"
    by simp_all
  note rb = void_rebuild [OF v, of S ?lvl]
  have l: "level S (parents @ [?V]) - 1 = ?lvl" by (simp add: level_snoc)
  have a: "children node' \<noteq> [] \<and> last (children node') = ?c" if n: "sawNewline node"
  proof -
    from n rb have ne: "rebuild E S ?lvl node \<noteq> []" and la': "last (rebuild E S ?lvl node) = ?c"
      by simp_all
    from list_all2_last [OF la ne] la'
    have "children node' \<noteq> []" and "passed E S (parents @ [?V]) ?c (last (children node'))"
      by simp_all
    with passed_Text [OF _ nv] show ?thesis by blast
  qed
  have b: "children node' = [] \<or> annotated (last (children node'))" if n: "\<not> sawNewline node"
  proof (cases "?w = []")
    case True
    with n rb have "rebuild E S ?lvl node = []" by simp
    with la show ?thesis by simp
  next
    case False
    with walk_ends [of "indent S" ?lvl node ?cs "sawNewline node" ?cs 0 None]
    have i: "indentLevel (last ?w) = Some ?lvl" by blast
    from n rb False have ne: "rebuild E S ?lvl node \<noteq> []"
      and la': "last (rebuild E S ?lvl node) = last ?w"
      by simp_all
    from list_all2_last [OF la ne] la'
    have p: "passed E S (parents @ [?V]) (last ?w) (last (children node'))" by simp
    from i have "indentLevel (last ?w) = Some (level S (parents @ [?V]) - 1)" unfolding l .
    from passed_data [OF p nv this] show ?thesis by (simp add: annotated_def)
  qed
  from r a b show ?thesis by blast
qed

lemma void_root_child:
  assumes t: "transform E settings tree = Inr root'"
    and m: "minify E tree = Root cs0 d0"
    and mem: "Element t ps cs d \<in> set cs0"
    and v: "isVoid_node E (Element t ps cs d)"
    and ns: "\<not> List.member (sensitive E) t"
  shows "\<exists>x \<in> set (children root').
           x = Element t ps cs (Some (level (format settings tree) []))
         \<or> (tagName x = Some t
             \<and> indentLevel x = Some (level (format settings tree) [])
             \<and> (sawNewline (Element t ps cs d) \<longrightarrow>
                  children x \<noteq> []
                  \<and> last (children x)
                      = Text (single @ repeat (indent (format settings tree))
                                          (level (format settings tree) [])) None)
             \<and> (\<not> sawNewline (Element t ps cs d) \<longrightarrow>
                  children x = [] \<or> annotated (last (children x))))"
proof -
  let ?S = "format settings tree"
  let ?e = "Element t ps cs (Some (level ?S []))"
  from transform_one [OF t] m obtain r where
    o: "one E ?S (Root cs0 d0) 0 [] [] = Inr (root', r)" by auto
  from mem have mem': "Element t ps cs d \<in> set (children (Root cs0 d0))" by simp
  from child_after_pass [OF o ignore_Root mem'] obtain x V where
    x: "x \<in> set (children root')" and nv: "\<not> ignore E ([] @ [V])"
    and l: "level ?S ([] @ [V]) = level ?S [] + 1"
    and p: "passed E ?S ([] @ [V]) ?e x"
    by blast
  from p consider "x = ?e" | i sibs r' where "one E ?S ?e i sibs ([] @ [V]) = Inr (x, r')"
    unfolding passed_def by blast
  then show ?thesis
  proof cases
    case 1
    with x show ?thesis by blast
  next
    case 2
    from v have v': "isVoid_node E ?e" by (simp add: isVoid_node_def)
    from nv ns have ni: "\<not> ignore E (([] @ [V]) @ [?e])"
      using ignore_snoc [of E "[V]" ?e] by simp
    have il: "indentLevel ?e = Some (level ?S ([] @ [V]) - 1)" unfolding l by simp
    from one_data [OF 2 nv il]
    have d: "indentLevel x = Some (level ?S [])" "tagName x = Some t" by simp_all
    have s: "sawNewline ?e = sawNewline (Element t ps cs d)" by (simp add: sawNewline_def)
    from void_after_pass [OF 2 v' ni] have
      "(sawNewline (Element t ps cs d) \<longrightarrow>
            children x \<noteq> []
            \<and> last (children x) = Text (single @ repeat (indent ?S) (level ?S [])) None)
       \<and> (\<not> sawNewline (Element t ps cs d) \<longrightarrow> children x = [] \<or> annotated (last (children x)))"
      unfolding l s by simp
    with d x show ?thesis by blast
  qed
qed

section \<open>The properties of the specification\<close>

text \<open>
  C5.  The template-expression detector tests the pattern \<open><%...%>\<close> first, then
  \<open>{{...}}\<close>, then \<open>{...}\<close>, and answers true on any match.  Each pattern
  matches exactly the texts that hold its opening delimiter and, somewhere after it, its
  closing delimiter, with any text (line feeds too, or none) in between; so the detector
  answers true exactly on the texts that hold such a pair for one of the three patterns.
  The text \<open>{{x}} and {y}\<close> is a template expression by the double-brace test,
  \<open>{y}\<close> by the single-brace test alone, and \<open>plain\<close> is none;
  \<open>a <%= x %> b\<close> is one by the first test alone, and a text with an opening
  delimiter and no closing one after it, or with overlapping delimiters as in
  \<open><%>\<close>, is none.
\<close>

theorem isTemplateExpression_order:
  "isTemplateExpression v =
     (if ARROW_PERC_INTERPOLATION_REGEXP v then True
      else if DOUBLE_BRACKET_INTERPOLATION_REGEXP v then True
      else SINGLE_BRACKET_INTERPOLATION_REGEXP v)
   \<and> ARROW_PERC_INTERPOLATION_REGEXP v = (\<exists>pre mid post. v = pre @ ''<%'' @ mid @ ''%>'' @ post)
   \<and> DOUBLE_BRACKET_INTERPOLATION_REGEXP v = (\<exists>pre mid post. v = pre @ ''{{'' @ mid @ ''}}'' @ post)
   \<and> SINGLE_BRACKET_INTERPOLATION_REGEXP v = (\<exists>pre mid post. v = pre @ ''{'' @ mid @ ''}'' @ post)
   \<and> isTemplateExpression v =
        ((\<exists>pre mid post. v = pre @ ''<%'' @ mid @ ''%>'' @ post)
         \<or> (\<exists>pre mid post. v = pre @ ''{{'' @ mid @ ''}}'' @ post)
         \<or> (\<exists>pre mid post. v = pre @ ''{'' @ mid @ ''}'' @ post))
   \<and> (\<not> ARROW_PERC_INTERPOLATION_REGEXP ''{{x}} and {y}''
      \<and> DOUBLE_BRACKET_INTERPOLATION_REGEXP ''{{x}} and {y}''
      \<and> isTemplateExpression ''{{x}} and {y}'')
   \<and> (\<not> ARROW_PERC_INTERPOLATION_REGEXP ''{y}''
      \<and> \<not> DOUBLE_BRACKET_INTERPOLATION_REGEXP ''{y}''
      \<and> SINGLE_BRACKET_INTERPOLATION_REGEXP ''{y}''
      \<and> isTemplateExpression ''{y}'')
   \<and> \<not> isTemplateExpression ''plain''
   \<and> (ARROW_PERC_INTERPOLATION_REGEXP ''a <%= x %> b''
      \<and> \<not> DOUBLE_BRACKET_INTERPOLATION_REGEXP ''a <%= x %> b''
      \<and> \<not> SINGLE_BRACKET_INTERPOLATION_REGEXP ''a <%= x %> b''
      \<and> isTemplateExpression ''a <%= x %> b'')
   \<and> \<not> isTemplateExpression ''<%>''
   \<and> \<not> isTemplateExpression ''<% x''
   \<and> \<not> isTemplateExpression ''{{x''
   \<and> \<not> isTemplateExpression ''} x {''"
proof -
  have a: "ARROW_PERC_INTERPOLATION_REGEXP v = (\<exists>pre mid post. v = pre @ ''<%'' @ mid @ ''%>'' @ post)"
    unfolding ARROW_PERC_INTERPOLATION_REGEXP_def by (rule testDelimited_iff) simp
  have d: "DOUBLE_BRACKET_INTERPOLATION_REGEXP v = (\<exists>pre mid post. v = pre @ ''{{'' @ mid @ ''}}'' @ post)"
    unfolding DOUBLE_BRACKET_INTERPOLATION_REGEXP_def by (rule testDelimited_iff) simp
  have s: "SINGLE_BRACKET_INTERPOLATION_REGEXP v = (\<exists>pre mid post. v = pre @ ''{'' @ mid @ ''}'' @ post)"
    unfolding SINGLE_BRACKET_INTERPOLATION_REGEXP_def by (rule testDelimited_iff) simp
  have i: "isTemplateExpression v =
     (if ARROW_PERC_INTERPOLATION_REGEXP v then True
      else if DOUBLE_BRACKET_INTERPOLATION_REGEXP v then True
      else SINGLE_BRACKET_INTERPOLATION_REGEXP v)"
    by (simp add: isTemplateExpression_def)
  have j: "isTemplateExpression v =
        ((\<exists>pre mid post. v = pre @ ''<%'' @ mid @ ''%>'' @ post)
         \<or> (\<exists>pre mid post. v = pre @ ''{{'' @ mid @ ''}}'' @ post)
         \<or> (\<exists>pre mid post. v = pre @ ''{'' @ mid @ ''}'' @ post))"
    unfolding i a d s by auto
  have e: "(\<not> ARROW_PERC_INTERPOLATION_REGEXP ''{{x}} and {y}''
      \<and> DOUBLE_BRACKET_INTERPOLATION_REGEXP ''{{x}} and {y}''
      \<and> isTemplateExpression ''{{x}} and {y}'')
   \<and> (\<not> ARROW_PERC_INTERPOLATION_REGEXP ''{y}''
      \<and> \<not> DOUBLE_BRACKET_INTERPOLATION_REGEXP ''{y}''
      \<and> SINGLE_BRACKET_INTERPOLATION_REGEXP ''{y}''
      \<and> isTemplateExpression ''{y}'')
   \<and> \<not> isTemplateExpression ''plain''
   \<and> (ARROW_PERC_INTERPOLATION_REGEXP ''a <%= x %> b''
      \<and> \<not> DOUBLE_BRACKET_INTERPOLATION_REGEXP ''a <%= x %> b''
      \<and> \<not> SINGLE_BRACKET_INTERPOLATION_REGEXP ''a <%= x %> b''
      \<and> isTemplateExpression ''a <%= x %> b'')
   \<and> \<not> isTemplateExpression ''<%>''
   \<and> \<not> isTemplateExpression ''<% x''
   \<and> \<not> isTemplateExpression ''{{x''
   \<and> \<not> isTemplateExpression ''} x {''"
    by (simp add: isTemplateExpression_def regexp_defs)
  from i a d s j e show ?thesis by blast
qed

text \<open>
  C6, as the claim states it, fails: the lookup reads the table with the tag name as it
  is given.  The keys are lower-case, so \<open>BR\<close> is not found and gets the default
  descriptor, while \<open>br\<close> is a void element.
\<close>

theorem lookup_case_counterexample:
  "toLowerCase ''BR'' = ''br''
   \<and> fst (getHtmlTagDefinition initialRegistry ''br'' False) = Descriptor voidDef
   \<and> isVoid voidDef
   \<and> fst (getHtmlTagDefinition initialRegistry ''BR'' False)
       = Descriptor (newHtmlTagDefinition noArgs)
   \<and> \<not> isVoid (newHtmlTagDefinition noArgs)"
  by (simp add: getHtmlTagDefinition_def initialRegistry_def tagTable_def Let_def
      Object_prototype_keys_def lowerChar_defs voidDef_def newHtmlTagDefinition_def
      noArgs_def orDefault_def)

text \<open>
  C6, amended.  The lookup matches the tag name exactly: a key of the table yields its
  descriptor.  Every other tag name that is not the name of a property inherited from
  \<open>Object.prototype\<close> yields the default descriptor, under either formatting mode:
  not void, no required parents, parsable content, no \<open>closedByChildren\<close> entry (it
  is closed by no child whose lower-case name is not such an inherited name), and
  \<open>closedByParent\<close> false.
\<close>

theorem lookup_default:
  assumes "registryOk r"
  shows "fst (getHtmlTagDefinition r t f) =
       (case map_of (tagTable f) t of
          Some d \<Rightarrow> Descriptor d
        | None \<Rightarrow> if List.member Object_prototype_keys t then Inherited t
                  else Descriptor (newHtmlTagDefinition noArgs))
     \<and> \<not> isVoid (newHtmlTagDefinition noArgs)
     \<and> requiredParents (newHtmlTagDefinition noArgs) = None
     \<and> contentType (newHtmlTagDefinition noArgs) = PARSABLE_DATA
     \<and> closedByChildren (newHtmlTagDefinition noArgs) = []
     \<and> (\<forall>name. \<not> List.member Object_prototype_keys (toLowerCase name)
            \<longrightarrow> \<not> isClosedByChild (newHtmlTagDefinition noArgs) name)
     \<and> \<not> closedByParent (newHtmlTagDefinition noArgs)"
  using getHtmlTagDefinition_table [OF assms]
  by (simp add: newHtmlTagDefinition_noArgs isClosedByChild_def js_in_def)

theorem lookup_default_witness:
  "registryOk initialRegistry
   \<and> fst (getHtmlTagDefinition initialRegistry ''my-element'' True)
       = Descriptor (newHtmlTagDefinition noArgs)
   \<and> fst (getHtmlTagDefinition initialRegistry ''BR'' True)
       = Descriptor (newHtmlTagDefinition noArgs)
   \<and> fst (getHtmlTagDefinition initialRegistry ''br'' True) = Descriptor voidDef
   \<and> \<not> isClosedByChild (newHtmlTagDefinition noArgs) ''DIV''"
  using lookup_default [OF registryOk_initial, of "''my-element''" True]
        lookup_default [OF registryOk_initial, of "''BR''" True]
        lookup_default [OF registryOk_initial, of "''br''" True]
  by (simp add: registryOk_initial tagTable_def Object_prototype_keys_def lowerChar_defs)

text \<open>
  C10.  A descriptor constructed with \<open>isVoid\<close> true reports \<open>closedByParent\<close>
  true and is closed by every child tag name, whatever the other arguments are: also
  when \<open>closedByParent\<close> is given as false and no \<open>closedByChildren\<close> is given.
\<close>

theorem void_descriptor_closed:
  "arg_isVoid a = Some True \<Longrightarrow>
     isVoid (newHtmlTagDefinition a) \<and> closedByParent (newHtmlTagDefinition a)
     \<and> (\<forall>name. isClosedByChild (newHtmlTagDefinition a) name)"
  by (simp add: newHtmlTagDefinition_def isClosedByChild_def orDefault_def Let_def)

theorem void_descriptor_closed_witness:
  "arg_isVoid (noArgs\<lparr>arg_isVoid := Some True, arg_closedByParent := Some False\<rparr>) = Some True
   \<and> arg_closedByChildren (noArgs\<lparr>arg_isVoid := Some True, arg_closedByParent := Some False\<rparr>) = None
   \<and> closedByParent (newHtmlTagDefinition (noArgs\<lparr>arg_isVoid := Some True, arg_closedByParent := Some False\<rparr>))
   \<and> isClosedByChild (newHtmlTagDefinition (noArgs\<lparr>arg_isVoid := Some True, arg_closedByParent := Some False\<rparr>)) ''div''"
  using void_descriptor_closed [of "noArgs\<lparr>arg_isVoid := Some True, arg_closedByParent := Some False\<rparr>"]
  by (simp add: noArgs_def)

text \<open>
  C1, as the claim states it, fails: the subtraction is the other way round.  A tree
  with no \<open>html\<close>, \<open>head\<close> or \<open>body\<close> element gets the plain depth (the
  \<open>p\<close> below a top-level \<open>div\<close> is annotated 1), and a tree with such an element
  gets the depth minus one (the \<open>body\<close> below \<open>html\<close> is annotated 0).  The
  two trees hold no text, so there is nothing in them for a minifier to collapse.
\<close>

theorem fragment_level_counterexample:
  "\<not> list_ex (\<lambda>n. isElementOf n [''html'', ''body'', ''head''])
        (subnodes (Root [Element ''div'' [] [Element ''p'' [] [] None] None] None))
   \<and> level (format exampleOptions (Root [Element ''div'' [] [Element ''p'' [] [] None] None] None))
        [Root [Element ''div'' [] [Element ''p'' [] [] None] None] None] = 1
   \<and> transform exampleEnv exampleOptions (Root [Element ''div'' [] [Element ''p'' [] [] None] None] None)
       = Inr (Root [Element ''div'' []
                      [Text [CHR 0x0A, CHR '' '', CHR '' ''] None,
                       Element ''p'' [] [] (Some 1),
                       Text [CHR 0x0A] None] (Some 0),
                    Text [CHR 0x0A] None] None)
   \<and> list_ex (\<lambda>n. isElementOf n [''html'', ''body'', ''head''])
        (subnodes (Root [Element ''html'' [] [Element ''body'' [] [] None] None] None))
   \<and> level (format exampleOptions (Root [Element ''html'' [] [Element ''body'' [] [] None] None] None))
        [Root [Element ''html'' [] [Element ''body'' [] [] None] None] None] = 0
   \<and> transform exampleEnv exampleOptions (Root [Element ''html'' [] [Element ''body'' [] [] None] None] None)
       = Inr (Root [Element ''html'' []
                      [Text [CHR 0x0A] None,
                       Element ''body'' [] [] (Some 0),
                       Text [CHR 0x0A] None] (Some (- 1)),
                    Text [CHR 0x0A] None] None)"
  by code_simp

text \<open>
  C1, amended.  For every input tree, the level of a visited node is the number of its
  ancestors, less one exactly when the tree contains an \<open>html\<close>, \<open>head\<close> or
  \<open>body\<close> element; with no such element (fragment mode) nothing is subtracted.  It
  is the level the visitor writes to every child the node had.
\<close>

theorem level_by_page_elements:
  "level (format settings tree) parents
     = int (length parents)
       - (if list_ex (\<lambda>n. isElementOf n [''html'', ''body'', ''head'']) (subnodes tree) then 1 else 0)
   \<and> (visitor E (format settings tree) node parents siblings index = Inr (node', CONTINUE)
        \<longrightarrow> map indentLevel (filter annotated (children node'))
              = replicate (length (children node)) (Some (level (format settings tree) parents)))"
  using visitor_children_levels [of E "format settings tree" node parents siblings index node']
  by (simp add: level_format)

theorem level_by_page_elements_witness:
  "visitor exampleEnv
       (format exampleOptions
          (Root [Element ''html'' [] [Element ''body'' [] [Element ''p'' [] [] None] None] None] None))
       (Element ''body'' [] [Element ''p'' [] [] None] None)
       [Root [] None, Element ''html'' [] [] None] [] 0
     = Inr (Element ''body'' []
              [Text [CHR 0x0A, CHR '' '', CHR '' ''] None,
               Element ''p'' [] [] (Some 1),
               Text [CHR 0x0A] None] None,
            CONTINUE)
   \<and> level (format exampleOptions
               (Root [Element ''html'' [] [Element ''body'' [] [Element ''p'' [] [] None] None] None] None))
        [Root [] None, Element ''html'' [] [] None] = 2 - 1
   \<and> map indentLevel (filter annotated
         [Text [CHR 0x0A, CHR '' '', CHR '' ''] None, Element ''p'' [] [] (Some 1), Text [CHR 0x0A] None])
       = replicate (length [Element ''p'' [] [] None]) (Some (2 - 1))"
proof -
  let ?tree = "Root [Element ''html'' [] [Element ''body'' [] [Element ''p'' [] [] None] None] None] None"
  let ?node' = "Element ''body'' []
                  [Text [CHR 0x0A, CHR '' '', CHR '' ''] None,
                   Element ''p'' [] [] (Some 1),
                   Text [CHR 0x0A] None] None"
  have v: "visitor exampleEnv (format exampleOptions ?tree)
             (Element ''body'' [] [Element ''p'' [] [] None] None)
             [Root [] None, Element ''html'' [] [] None] [] 0 = Inr (?node', CONTINUE)"
    by code_simp
  have p: "list_ex (\<lambda>n. isElementOf n [''html'', ''body'', ''head'']) (subnodes ?tree)"
    by code_simp
  from level_by_page_elements [of exampleOptions ?tree "[Root [] None, Element ''html'' [] [] None]"
      exampleEnv "Element ''body'' [] [Element ''p'' [] [] None] None" "[]" 0 ?node'] v p
  show ?thesis by simp
qed

text \<open>
  C2 speaks of two passes.  The second pass begins by minifying the breaks the first one
  has inserted, so whether it arrives at the same tree depends on the minifier, which
  is a parameter here: idempotence can be neither proved nor refuted in this model.
  The engine alone does not provide it.  With a minifier that leaves the tree as it is,
  a second pass inserts further breaks and annotates the text nodes of the first pass.
\<close>

lemma second_pass_without_minifier:
  "transform exampleEnv exampleOptions (Root [Element ''div'' [] [Element ''p'' [] [] None] None] None)
     = Inr (Root [Element ''div'' []
                    [Text [CHR 0x0A, CHR '' '', CHR '' ''] None,
                     Element ''p'' [] [] (Some 1),
                     Text [CHR 0x0A] None] (Some 0),
                  Text [CHR 0x0A] None] None)
   \<and> transform exampleEnv exampleOptions
         (Root [Element ''div'' []
                  [Text [CHR 0x0A, CHR '' '', CHR '' ''] None,
                   Element ''p'' [] [] (Some 1),
                   Text [CHR 0x0A] None] (Some 0),
                Text [CHR 0x0A] None] None)
     = Inr (Root [Element ''div'' []
                    [Text [CHR 0x0A, CHR '' '', CHR '' ''] None,
                     Text [CHR 0x0A, CHR '' '', CHR '' ''] (Some 1),
                     Element ''p'' [] [] (Some 1),
                     Text [CHR 0x0A, CHR '' '', CHR '' ''] (Some 1),
                     Text [CHR 0x0A] None] (Some 0),
                  Text [CHR 0x0A] (Some 0),
                  Text [CHR 0x0A] None] None)"
  by code_simp




text \<open>
  C4, as the claim states it, fails: the closing break is pushed when
  \<open>afterChildNodesAddedHook(node, prevChild) || newline\<close>, and only the hook asks
  whether the node is void.  A void element with a text child of two lines gets the
  closing break (the last child of \<open>br\<close> below).  The text has no white space but
  the one line feed, which minifying with \<open>newlines: true\<close> keeps.
\<close>

theorem void_newline_counterexample:
  "isVoid_node exampleEnv (Element ''br'' [] [Text [CHR ''a'', CHR 0x0A, CHR ''b''] None] None)
   \<and> transform exampleEnv exampleOptions
        (Root [Element ''br'' [] [Text [CHR ''a'', CHR 0x0A, CHR ''b''] None] None] None)
       = Inr (Root [Element ''br'' []
                      [Text [CHR 0x0A, CHR '' '', CHR '' ''] None,
                       Text [CHR ''a'', CHR 0x0A, CHR '' '', CHR '' '', CHR ''b''] (Some 1),
                       Text [CHR 0x0A] None] (Some 0),
                    Text [CHR 0x0A] None] None)"
  by code_simp

text \<open>
  C4, amended.  For every element whose tag name is in the void-element set, the engine
  never appends a closing break (a text node of a line feed and the closing indent) to
  the element's children, whatever the children are, unless one of the element's own
  text children held a line feed (the flag \<open>newline\<close>).  Where the visitor rebuilds
  the child list of such an element, that is, when neither the element nor one of its
  ancestors is white-space sensitive, the new list is what the walk through the children
  pushes, followed by the closing break if the flag is set and by nothing otherwise;
  what the walk pushes is empty or ends with an annotated child of the element, not
  with a break.  Where the element lies
  in a sensitive subtree, the visitor appends nothing: the children stay, or are removed
  when they are white-space text only, or are replaced by the embedded formatter's three
  text nodes.  After the pass below a rebuilt void element, its last child is the closing
  break if the flag was set, and otherwise an annotated child of its own, if it has a
  child at all.  This holds in particular for the void children of the root of the tree
  that \<open>transform\<close> returns, unless a directive made the traversal jump over them.
\<close>

theorem void_closing_break:
  assumes "isVoid_node E (Element t ps cs d)"
  shows "(\<not> ignore E (parents @ [Element t ps cs d])
          \<longrightarrow> visitor E S (Element t ps cs d) parents siblings index
                = Inr (Element t ps
                         (walk (indent S) (level S parents) (Element t ps cs d)
                            (indentChildren (indent S) (level S parents) (Element t ps cs d))
                            (sawNewline (Element t ps cs d))
                            (indentChildren (indent S) (level S parents) (Element t ps cs d))
                            0 None
                          @ (if sawNewline (Element t ps cs d)
                             then [Text (single @ repeat (indent S) (level S parents - 1)) None]
                             else [])) d, CONTINUE)
              \<and> (walk (indent S) (level S parents) (Element t ps cs d)
                    (indentChildren (indent S) (level S parents) (Element t ps cs d))
                    (sawNewline (Element t ps cs d))
                    (indentChildren (indent S) (level S parents) (Element t ps cs d))
                    0 None = []
                  \<or> annotated
                       (last (walk (indent S) (level S parents) (Element t ps cs d)
                                (indentChildren (indent S) (level S parents)
                                   (Element t ps cs d))
                                (sawNewline (Element t ps cs d))
                                (indentChildren (indent S) (level S parents)
                                   (Element t ps cs d))
                                0 None))))
       \<and> (ignore E (parents @ [Element t ps cs d])
            \<and> visitor E S (Element t ps cs d) parents siblings index = Inr (node', r)
          \<longrightarrow> r = SKIP
              \<and> (node' = Element t ps cs (Some (level S parents - 1))
                  \<or> (containsOnlyEmptyTextNodes cs
                      \<and> node' = Element t ps [] (Some (level S parents - 1)))
                  \<or> (usePrettier S \<and> cs \<noteq> [] \<and> \<not> containsOnlyEmptyTextNodes cs
                      \<and> (t = ''style'' \<or> t = ''script'')
                      \<and> (\<exists>f. node' = Element t ps
                                   [Text single None, Text f None,
                                    Text (repeat (indent S) (level S parents - 1)) None]
                                   (Some (level S parents - 1))))))
       \<and> (\<not> ignore E (parents @ [Element t ps cs d])
            \<and> one E S (Element t ps cs d) index siblings parents = Inr (node', r)
          \<longrightarrow> r = CONTINUE
              \<and> (sawNewline (Element t ps cs d) \<longrightarrow>
                    children node' \<noteq> []
                    \<and> last (children node')
                        = Text (single @ repeat (indent S) (level S parents - 1)) None)
              \<and> (\<not> sawNewline (Element t ps cs d) \<longrightarrow>
                    children node' = [] \<or> annotated (last (children node'))))
       \<and> (transform E settings tree = Inr root'
            \<and> minify E tree = Root cs0 d0
            \<and> Element t ps cs d \<in> set cs0
            \<and> \<not> List.member (sensitive E) t
          \<longrightarrow> (\<exists>x \<in> set (children root').
                 x = Element t ps cs (Some (level (format settings tree) []))
               \<or> (tagName x = Some t
                   \<and> indentLevel x = Some (level (format settings tree) [])
                   \<and> (sawNewline (Element t ps cs d) \<longrightarrow>
                        children x \<noteq> []
                        \<and> last (children x)
                            = Text (single @ repeat (indent (format settings tree))
                                                (level (format settings tree) [])) None)
                   \<and> (\<not> sawNewline (Element t ps cs d) \<longrightarrow>
                        children x = [] \<or> annotated (last (children x))))))"
proof -
  let ?n = "Element t ps cs d"
  let ?ic = "indentChildren (indent S) (level S parents) ?n"
  let ?w = "walk (indent S) (level S parents) ?n ?ic (sawNewline ?n) ?ic 0 None"
  have k: "isRoot ?n \<or> isElement ?n" by simp
  have a: "visitor E S ?n parents siblings index
             = Inr (Element t ps
                      (?w @ (if sawNewline ?n
                             then [Text (single @ repeat (indent S) (level S parents - 1)) None]
                             else [])) d, CONTINUE)
           \<and> (?w = [] \<or> annotated (last ?w))"
    if "\<not> ignore E (parents @ [?n])"
  proof -
    from walk_ends [of "indent S" "level S parents" ?n ?ic "sawNewline ?n" ?ic 0 None]
    have "?w = [] \<or> annotated (last ?w)" by blast
    then show ?thesis
      unfolding visitor_rebuilds [OF k that] void_rebuild [OF assms] by simp
  qed
  have b: "r = SKIP
              \<and> (node' = Element t ps cs (Some (level S parents - 1))
                  \<or> (containsOnlyEmptyTextNodes cs
                      \<and> node' = Element t ps [] (Some (level S parents - 1)))
                  \<or> (usePrettier S \<and> cs \<noteq> [] \<and> \<not> containsOnlyEmptyTextNodes cs
                      \<and> (t = ''style'' \<or> t = ''script'')
                      \<and> (\<exists>f. node' = Element t ps
                                   [Text single None, Text f None,
                                    Text (repeat (indent S) (level S parents - 1)) None]
                                   (Some (level S parents - 1)))))"
    if "ignore E (parents @ [?n]) \<and> visitor E S ?n parents siblings index = Inr (node', r)"
  proof -
    from that have i: "ignore E (parents @ [?n])"
      and v: "visitor E S ?n parents siblings index = Inr (node', r)"
      by simp_all
    from v [unfolded visitor_sensitive [OF i]]
    have r: "r = SKIP" and s: "skipSensitive E S ?n (level S parents) = Inr node'"
      by (auto split: sum.splits)
    from r skipSensitive_cases [OF s] show ?thesis by blast
  qed
  have c: "r = CONTINUE
              \<and> (sawNewline ?n \<longrightarrow>
                    children node' \<noteq> []
                    \<and> last (children node')
                        = Text (single @ repeat (indent S) (level S parents - 1)) None)
              \<and> (\<not> sawNewline ?n \<longrightarrow>
                    children node' = [] \<or> annotated (last (children node')))"
    if "\<not> ignore E (parents @ [?n])
          \<and> one E S ?n index siblings parents = Inr (node', r)"
    using void_after_pass [of E S ?n index siblings parents node' r] that assms by blast
  have e: "\<exists>x \<in> set (children root').
                 x = Element t ps cs (Some (level (format settings tree) []))
               \<or> (tagName x = Some t
                   \<and> indentLevel x = Some (level (format settings tree) [])
                   \<and> (sawNewline ?n \<longrightarrow>
                        children x \<noteq> []
                        \<and> last (children x)
                            = Text (single @ repeat (indent (format settings tree))
                                                (level (format settings tree) [])) None)
                   \<and> (\<not> sawNewline ?n \<longrightarrow>
                        children x = [] \<or> annotated (last (children x))))"
    if "transform E settings tree = Inr root'
            \<and> minify E tree = Root cs0 d0
            \<and> Element t ps cs d \<in> set cs0
            \<and> \<not> List.member (sensitive E) t"
    using void_root_child [of E settings tree root' cs0 d0 t ps cs d] that assms by blast
  from a b c e show ?thesis by blast
qed

theorem void_closing_break_witness:
  "isVoid_node exampleEnv (Element ''img'' [] [Text ''x'' None, Element ''b'' [] [] None] None)
   \<and> \<not> ignore exampleEnv
         ([Root [] None] @ [Element ''img'' [] [Text ''x'' None, Element ''b'' [] [] None] None])
   \<and> \<not> sawNewline (Element ''img'' [] [Text ''x'' None, Element ''b'' [] [] None] None)
   \<and> visitor exampleEnv (format exampleOptions (Root [] None))
         (Element ''img'' [] [Text ''x'' None, Element ''b'' [] [] None] None) [Root [] None] [] 0
       = Inr (Element ''img'' []
                [Text ''x'' (Some 1),
                 Text [CHR 0x0A, CHR '' '', CHR '' ''] None,
                 Element ''b'' [] [] (Some 1)] None, CONTINUE)
   \<and> one exampleEnv (format exampleOptions (Root [] None))
         (Element ''img'' [] [Text ''x'' None, Element ''b'' [] [] None] None) 0 [] [Root [] None]
       = Inr (Element ''img'' []
                [Text ''x'' (Some 1),
                 Text [CHR 0x0A, CHR '' '', CHR '' ''] None,
                 Element ''b'' [] [] (Some 1)] None, CONTINUE)
   \<and> annotated (last [Text ''x'' (Some 1),
                       Text [CHR 0x0A, CHR '' '', CHR '' ''] None,
                       Element ''b'' [] [] (Some 1)])
   \<and> isVoid_node exampleEnv (Element ''br'' [] [Text [CHR ''a'', CHR 0x0A, CHR ''b''] None] None)
   \<and> \<not> ignore exampleEnv
         ([Root [] None] @ [Element ''br'' [] [Text [CHR ''a'', CHR 0x0A, CHR ''b''] None] None])
   \<and> sawNewline (Element ''br'' [] [Text [CHR ''a'', CHR 0x0A, CHR ''b''] None] None)
   \<and> visitor exampleEnv (format exampleOptions (Root [] None))
         (Element ''br'' [] [Text [CHR ''a'', CHR 0x0A, CHR ''b''] None] None) [Root [] None] [] 0
       = Inr (Element ''br'' []
                [Text [CHR 0x0A, CHR '' '', CHR '' ''] None,
                 Text [CHR ''a'', CHR 0x0A, CHR '' '', CHR '' '', CHR ''b''] (Some 1),
                 Text [CHR 0x0A] None] None, CONTINUE)
   \<and> one exampleEnv (format exampleOptions (Root [] None))
         (Element ''br'' [] [Text [CHR ''a'', CHR 0x0A, CHR ''b''] None] None) 0 [] [Root [] None]
       = Inr (Element ''br'' []
                [Text [CHR 0x0A, CHR '' '', CHR '' ''] None,
                 Text [CHR ''a'', CHR 0x0A, CHR '' '', CHR '' '', CHR ''b''] (Some 1),
                 Text [CHR 0x0A] None] None, CONTINUE)
   \<and> last [Text [CHR 0x0A, CHR '' '', CHR '' ''] None,
            Text [CHR ''a'', CHR 0x0A, CHR '' '', CHR '' '', CHR ''b''] (Some 1),
            Text [CHR 0x0A] None]
       = Text [CHR 0x0A] None
   \<and> ignore exampleEnv
         ([Root [] None, Element ''pre'' [] [] None]
          @ [Element ''br'' [] [Text [CHR ''a'', CHR 0x0A, CHR ''b''] None] None])
   \<and> visitor exampleEnv (format exampleOptions (Root [] None))
         (Element ''br'' [] [Text [CHR ''a'', CHR 0x0A, CHR ''b''] None] None)
         [Root [] None, Element ''pre'' [] [] None] [] 0
       = Inr (Element ''br'' [] [Text [CHR ''a'', CHR 0x0A, CHR ''b''] None] (Some 1), SKIP)
   \<and> transform exampleEnv exampleOptions
         (Root [Element ''br'' [] [Text [CHR ''a'', CHR 0x0A, CHR ''b''] None] None,
                Element ''img'' [] [Text ''x'' None, Element ''b'' [] [] None] None,
                Comment ''prettyhtml-ignore'' None,
                Element ''br'' [] [Text [CHR ''c'', CHR 0x0A, CHR ''d''] None] None] None)
       = Inr (Root [Element ''br'' []
                      [Text [CHR 0x0A, CHR '' '', CHR '' ''] None,
                       Text [CHR ''a'', CHR 0x0A, CHR '' '', CHR '' '', CHR ''b''] (Some 1),
                       Text [CHR 0x0A] None] (Some 0),
                    Text [CHR 0x0A] None,
                    Element ''img'' []
                      [Text ''x'' (Some 1),
                       Text [CHR 0x0A, CHR '' '', CHR '' ''] None,
                       Element ''b'' [] [] (Some 1)] (Some 0),
                    Text [CHR 0x0A] None,
                    Comment ''prettyhtml-ignore'' (Some 0),
                    Text [CHR 0x0A] None,
                    Element ''br'' [] [Text [CHR ''c'', CHR 0x0A, CHR ''d''] None] (Some 0),
                    Text [CHR 0x0A] None] None)
   \<and> (\<exists>x \<in> set [Element ''br'' []
                    [Text [CHR 0x0A, CHR '' '', CHR '' ''] None,
                     Text [CHR ''a'', CHR 0x0A, CHR '' '', CHR '' '', CHR ''b''] (Some 1),
                     Text [CHR 0x0A] None] (Some 0),
                  Text [CHR 0x0A] None,
                  Element ''img'' []
                    [Text ''x'' (Some 1),
                     Text [CHR 0x0A, CHR '' '', CHR '' ''] None,
                     Element ''b'' [] [] (Some 1)] (Some 0),
                  Text [CHR 0x0A] None,
                  Comment ''prettyhtml-ignore'' (Some 0),
                  Text [CHR 0x0A] None,
                  Element ''br'' [] [Text [CHR ''c'', CHR 0x0A, CHR ''d''] None] (Some 0),
                  Text [CHR 0x0A] None].
         x = Element ''br'' [] [Text [CHR ''a'', CHR 0x0A, CHR ''b''] None] (Some 0)
         \<or> (tagName x = Some ''br'' \<and> indentLevel x = Some 0
             \<and> children x \<noteq> [] \<and> last (children x) = Text [CHR 0x0A] None))
   \<and> (\<exists>x \<in> set [Element ''br'' []
                    [Text [CHR 0x0A, CHR '' '', CHR '' ''] None,
                     Text [CHR ''a'', CHR 0x0A, CHR '' '', CHR '' '', CHR ''b''] (Some 1),
                     Text [CHR 0x0A] None] (Some 0),
                  Text [CHR 0x0A] None,
                  Element ''img'' []
                    [Text ''x'' (Some 1),
                     Text [CHR 0x0A, CHR '' '', CHR '' ''] None,
                     Element ''b'' [] [] (Some 1)] (Some 0),
                  Text [CHR 0x0A] None,
                  Comment ''prettyhtml-ignore'' (Some 0),
                  Text [CHR 0x0A] None,
                  Element ''br'' [] [Text [CHR ''c'', CHR 0x0A, CHR ''d''] None] (Some 0),
                  Text [CHR 0x0A] None].
         x = Element ''img'' [] [Text ''x'' None, Element ''b'' [] [] None] (Some 0)
         \<or> (tagName x = Some ''img'' \<and> indentLevel x = Some 0
             \<and> (children x = [] \<or> annotated (last (children x)))))"
proof -
  let ?S = "format exampleOptions (Root [] None)"
  let ?img = "Element ''img'' [] [Text ''x'' None, Element ''b'' [] [] None] None"
  let ?br = "Element ''br'' [] [Text [CHR ''a'', CHR 0x0A, CHR ''b''] None] None"
  let ?br2 = "Element ''br'' [] [Text [CHR ''c'', CHR 0x0A, CHR ''d''] None] None"
  let ?icn = "[Text ''x'' (Some 1), Text [CHR 0x0A, CHR '' '', CHR '' ''] None,
               Element ''b'' [] [] (Some 1)]"
  let ?bcn = "[Text [CHR 0x0A, CHR '' '', CHR '' ''] None,
               Text [CHR ''a'', CHR 0x0A, CHR '' '', CHR '' '', CHR ''b''] (Some 1),
               Text [CHR 0x0A] None]"
  let ?pp = "[Root [] None, Element ''pre'' [] [] None]"
  let ?tree = "Root [?br, ?img, Comment ''prettyhtml-ignore'' None, ?br2] None"
  let ?kids = "[Element ''br'' [] ?bcn (Some 0),
                  Text [CHR 0x0A] None,
                  Element ''img'' [] ?icn (Some 0),
                  Text [CHR 0x0A] None,
                  Comment ''prettyhtml-ignore'' (Some 0),
                  Text [CHR 0x0A] None,
                  Element ''br'' [] [Text [CHR ''c'', CHR 0x0A, CHR ''d''] None] (Some 0),
                  Text [CHR 0x0A] None]"
  have v1: "isVoid_node exampleEnv ?img" by code_simp
  have v2: "isVoid_node exampleEnv ?br" by code_simp
  have n1: "\<not> ignore exampleEnv ([Root [] None] @ [?img])" by code_simp
  have n2: "\<not> ignore exampleEnv ([Root [] None] @ [?br])" by code_simp
  have i3: "ignore exampleEnv (?pp @ [?br])" by code_simp
  have s1: "\<not> sawNewline ?img" by code_simp
  have s2: "sawNewline ?br" by code_simp
  have m1: "\<not> List.member (sensitive exampleEnv) ''img''" by code_simp
  have m2: "\<not> List.member (sensitive exampleEnv) ''br''" by code_simp
  have vi: "visitor exampleEnv ?S ?img [Root [] None] [] 0
              = Inr (Element ''img'' [] ?icn None, CONTINUE)" by code_simp
  have oi: "one exampleEnv ?S ?img 0 [] [Root [] None]
              = Inr (Element ''img'' [] ?icn None, CONTINUE)" by code_simp
  have vb: "visitor exampleEnv ?S ?br [Root [] None] [] 0
              = Inr (Element ''br'' [] ?bcn None, CONTINUE)" by code_simp
  have ob: "one exampleEnv ?S ?br 0 [] [Root [] None]
              = Inr (Element ''br'' [] ?bcn None, CONTINUE)" by code_simp
  have vp: "visitor exampleEnv ?S ?br ?pp [] 0
              = Inr (Element ''br'' [] [Text [CHR ''a'', CHR 0x0A, CHR ''b''] None] (Some 1), SKIP)"
    by code_simp
  have t: "transform exampleEnv exampleOptions ?tree = Inr (Root ?kids None)" by code_simp
  have m: "minify exampleEnv ?tree
             = Root [?br, ?img, Comment ''prettyhtml-ignore'' None, ?br2] None"
    by code_simp
  have l0: "level (format exampleOptions ?tree) [] = 0" by code_simp
  have l1: "level ?S [Root [] None] - 1 = 0" by code_simp
  have c0: "single @ repeat (indent (format exampleOptions ?tree)) 0 = [CHR 0x0A]" by code_simp
  have c1: "single @ repeat (indent ?S) 0 = [CHR 0x0A]" by code_simp
  from void_closing_break
         [OF v1, where parents = "[Root [] None]" and S = ?S and index = 0 and siblings = "[]"
            and node' = "Element ''img'' [] ?icn None" and r = CONTINUE,
          THEN conjunct2, THEN conjunct2, THEN conjunct1, rule_format] n1 oi s1
  have a: "annotated (last ?icn)" by simp
  from void_closing_break
         [OF v2, where parents = "[Root [] None]" and S = ?S and index = 0 and siblings = "[]"
            and node' = "Element ''br'' [] ?bcn None" and r = CONTINUE,
          THEN conjunct2, THEN conjunct2, THEN conjunct1, rule_format] n2 ob s2
  have b: "last ?bcn = Text [CHR 0x0A] None" unfolding l1 c1 by simp
  from void_closing_break
         [OF v2, where parents = "[Root [] None]" and S = ?S and index = 0 and siblings = "[]",
          THEN conjunct1, rule_format] n2
  have c: "visitor exampleEnv ?S ?br [Root [] None] [] 0
              = Inr (Element ''br'' [] ?bcn None, CONTINUE)"
    using vb by simp
  from void_closing_break
         [OF v2, where parents = ?pp and S = ?S and index = 0 and siblings = "[]"
            and node' = "Element ''br'' [] [Text [CHR ''a'', CHR 0x0A, CHR ''b''] None] (Some 1)"
            and r = SKIP,
          THEN conjunct2, THEN conjunct1, rule_format] i3 vp
  have d: "visitor exampleEnv ?S ?br ?pp [] 0
              = Inr (Element ''br'' [] [Text [CHR ''a'', CHR 0x0A, CHR ''b''] None] (Some 1), SKIP)"
    using vp by simp
  from void_closing_break
         [OF v2, where settings = exampleOptions and tree = ?tree and root' = "Root ?kids None",
          THEN conjunct2, THEN conjunct2, THEN conjunct2, rule_format] t m m2 s2
  have e: "\<exists>x \<in> set ?kids.
         x = Element ''br'' [] [Text [CHR ''a'', CHR 0x0A, CHR ''b''] None] (Some 0)
         \<or> (tagName x = Some ''br'' \<and> indentLevel x = Some 0
             \<and> children x \<noteq> [] \<and> last (children x) = Text [CHR 0x0A] None)"
    unfolding l0 c0 by simp
  from void_closing_break
         [OF v1, where settings = exampleOptions and tree = ?tree and root' = "Root ?kids None",
          THEN conjunct2, THEN conjunct2, THEN conjunct2, rule_format] t m m1 s1
  have f: "\<exists>x \<in> set ?kids.
         x = Element ''img'' [] [Text ''x'' None, Element ''b'' [] [] None] (Some 0)
         \<or> (tagName x = Some ''img'' \<and> indentLevel x = Some 0
             \<and> (children x = [] \<or> annotated (last (children x))))"
    unfolding l0 by simp
  from v1 n1 s1 vi oi a v2 n2 s2 c ob b i3 d t e f show ?thesis by blast
qed

text \<open>
  C7, as the claim states it, fails: where the engine does not rebuild a child list,
  nothing is inserted.  Below a \<open>pre\<close> element the comment \<open>[if IE]\<close> and the
  element after it stay side by side.  (The tree holds no text to minify.)
\<close>

theorem conditional_comment_counterexample:
  "contains ''[if IE]'' ''if''
   \<and> transform exampleEnv exampleOptions
        (Root [Element ''pre'' [] [Comment ''[if IE]'' None, Element ''p'' [] [] None] None] None)
       = Inr (Root [Element ''pre'' [] [Comment ''[if IE]'' None, Element ''p'' [] [] None] (Some 0),
                    Text [CHR 0x0A] None] None)"
  by code_simp

text \<open>
  C7, amended.  When a comment whose text contains \<open>if\<close> (in lower case, as in
  \<open>[if IE]\<close>) is directly followed by an element in the child list of a node that
  the engine visits, and neither the node nor one of its ancestors is white-space
  sensitive, then after the pass the node's child list holds, between the comment and
  that element, a text node of two line feeds and the indent of the node's level.  The
  comment is the same but for its annotation and, if it has several lines, its
  re-indented last line; the element has the same tag name.  This holds in particular
  for the children of the root of the tree that \<open>transform\<close> returns.
\<close>

theorem conditional_comment_break:
  "(one E S node index siblings parents = Inr (node', r)
      \<and> \<not> ignore E (parents @ [node])
      \<and> children node = pre @ Comment v d # c # post
      \<and> contains v ''if'' \<and> isElement c
    \<longrightarrow> (\<exists>pre' post' cm c'.
           children node'
             = pre' @ [cm, Text (double @ repeat (indent S) (level S parents)) None, c'] @ post'
           \<and> (cm = Comment v (Some (level S parents))
                \<or> cm = indentComment (indent S) (level S parents + 1)
                          (Comment v (Some (level S parents))))
           \<and> isElement c' \<and> tagName c' = tagName c
           \<and> indentLevel c' = Some (level S parents)))
   \<and> (transform E settings tree = Inr root'
      \<and> minify E tree = Root (pre @ Comment v d # c # post) d0
      \<and> contains v ''if'' \<and> isElement c
    \<longrightarrow> (\<exists>pre' post' cm c'.
           children root'
             = pre' @ [cm, Text (double @ repeat (indent (format settings tree))
                                            (level (format settings tree) [])) None, c'] @ post'
           \<and> (cm = Comment v (Some (level (format settings tree) []))
                \<or> cm = indentComment (indent (format settings tree))
                          (level (format settings tree) [] + 1)
                          (Comment v (Some (level (format settings tree) []))))
           \<and> isElement c' \<and> tagName c' = tagName c
           \<and> indentLevel c' = Some (level (format settings tree) [])))"
proof (intro conjI impI)
  assume "one E S node index siblings parents = Inr (node', r)
      \<and> \<not> ignore E (parents @ [node])
      \<and> children node = pre @ Comment v d # c # post
      \<and> contains v ''if'' \<and> isElement c"
  then show "\<exists>pre' post' cm c'.
           children node'
             = pre' @ [cm, Text (double @ repeat (indent S) (level S parents)) None, c'] @ post'
           \<and> (cm = Comment v (Some (level S parents))
                \<or> cm = indentComment (indent S) (level S parents + 1)
                          (Comment v (Some (level S parents))))
           \<and> isElement c' \<and> tagName c' = tagName c
           \<and> indentLevel c' = Some (level S parents)"
    using conditional_after_pass [of E S node index siblings parents node' r pre v d c post]
    by blast
next
  let ?S = "format settings tree"
  assume a: "transform E settings tree = Inr root'
      \<and> minify E tree = Root (pre @ Comment v d # c # post) d0
      \<and> contains v ''if'' \<and> isElement c"
  with transform_one [of E settings tree root'] obtain r where
    o: "one E ?S (Root (pre @ Comment v d # c # post) d0) 0 [] [] = Inr (root', r)"
    by auto
  have ch: "children (Root (pre @ Comment v d # c # post) d0) = pre @ Comment v d # c # post"
    by simp
  from a conditional_after_pass [OF o ignore_Root ch]
  show "\<exists>pre' post' cm c'.
           children root'
             = pre' @ [cm, Text (double @ repeat (indent ?S) (level ?S [])) None, c'] @ post'
           \<and> (cm = Comment v (Some (level ?S []))
                \<or> cm = indentComment (indent ?S) (level ?S [] + 1) (Comment v (Some (level ?S []))))
           \<and> isElement c' \<and> tagName c' = tagName c
           \<and> indentLevel c' = Some (level ?S [])"
    by blast
qed


theorem conditional_comment_break_witness:
  "one exampleEnv (format exampleOptions (Root [] None))
       (Element ''div'' []
          [Comment ''[if IE]'' None, Element ''p'' [] [Text ''x'' None] None] None)
       0 [] [Root [] None]
     = Inr (Element ''div'' []
              [Text [CHR 0x0A, CHR '' '', CHR '' ''] None,
               Comment ''[if IE]'' (Some 1),
               Text [CHR 0x0A, CHR 0x0A, CHR '' '', CHR '' ''] None,
               Element ''p'' [] [Text ''x'' (Some 2)] (Some 1),
               Text [CHR 0x0A] None] None, CONTINUE)
   \<and> \<not> ignore exampleEnv
         ([Root [] None]
          @ [Element ''div'' []
               [Comment ''[if IE]'' None, Element ''p'' [] [Text ''x'' None] None] None])
   \<and> contains ''[if IE]'' ''if''
   \<and> (\<exists>pre' post' cm c'.
         [Text [CHR 0x0A, CHR '' '', CHR '' ''] None,
          Comment ''[if IE]'' (Some 1),
          Text [CHR 0x0A, CHR 0x0A, CHR '' '', CHR '' ''] None,
          Element ''p'' [] [Text ''x'' (Some 2)] (Some 1),
          Text [CHR 0x0A] None]
           = pre' @ [cm, Text [CHR 0x0A, CHR 0x0A, CHR '' '', CHR '' ''] None, c'] @ post'
         \<and> cm = Comment ''[if IE]'' (Some 1)
         \<and> isElement c' \<and> tagName c' = Some ''p'' \<and> indentLevel c' = Some 1)
   \<and> transform exampleEnv exampleOptions
         (Root [Comment ''[if IE]'' None, Element ''p'' [] [] None] None)
     = Inr (Root [Comment ''[if IE]'' (Some 0),
                  Text [CHR 0x0A, CHR 0x0A] None,
                  Element ''p'' [] [] (Some 0),
                  Text [CHR 0x0A] None] None)
   \<and> (\<exists>pre' post' cm c'.
         [Comment ''[if IE]'' (Some 0),
          Text [CHR 0x0A, CHR 0x0A] None,
          Element ''p'' [] [] (Some 0),
          Text [CHR 0x0A] None]
           = pre' @ [cm, Text [CHR 0x0A, CHR 0x0A] None, c'] @ post'
         \<and> cm = Comment ''[if IE]'' (Some 0)
         \<and> isElement c' \<and> tagName c' = Some ''p'' \<and> indentLevel c' = Some 0)"
proof -
  let ?S = "format exampleOptions (Root [] None)"
  let ?p = "Element ''p'' [] [Text ''x'' None] None"
  let ?q = "Element ''p'' [] [] None"
  let ?div = "Element ''div'' [] [Comment ''[if IE]'' None, ?p] None"
  let ?div' = "Element ''div'' []
              [Text [CHR 0x0A, CHR '' '', CHR '' ''] None,
               Comment ''[if IE]'' (Some 1),
               Text [CHR 0x0A, CHR 0x0A, CHR '' '', CHR '' ''] None,
               Element ''p'' [] [Text ''x'' (Some 2)] (Some 1),
               Text [CHR 0x0A] None] None"
  let ?tree = "Root [Comment ''[if IE]'' None, ?q] None"
  let ?root' = "Root [Comment ''[if IE]'' (Some 0),
                  Text [CHR 0x0A, CHR 0x0A] None,
                  Element ''p'' [] [] (Some 0),
                  Text [CHR 0x0A] None] None"
  have o: "one exampleEnv ?S ?div 0 [] [Root [] None] = Inr (?div', CONTINUE)" by code_simp
  have ni: "\<not> ignore exampleEnv ([Root [] None] @ [?div])" by code_simp
  have ch: "children ?div = [] @ Comment ''[if IE]'' None # ?p # []" by simp
  have i: "contains ''[if IE]'' ''if''" by code_simp
  have e: "isElement ?p" "isElement ?q" by simp_all
  have t: "transform exampleEnv exampleOptions ?tree = Inr ?root'" by code_simp
  have m: "minify exampleEnv ?tree = Root ([] @ Comment ''[if IE]'' None # ?q # []) None"
    by code_simp
  have l1: "level ?S [Root [] None] = 1" by code_simp
  have l0: "level (format exampleOptions ?tree) [] = 0" by code_simp
  have d1: "double @ repeat (indent ?S) 1 = [CHR 0x0A, CHR 0x0A, CHR '' '', CHR '' '']"
    by code_simp
  have d0: "double @ repeat (indent (format exampleOptions ?tree)) 0 = [CHR 0x0A, CHR 0x0A]"
    by code_simp
  have c1: "indentComment (indent ?S) (1 + 1) (Comment ''[if IE]'' (Some 1))
              = Comment ''[if IE]'' (Some 1)"
    by code_simp
  have c0: "indentComment (indent (format exampleOptions ?tree)) (0 + 1)
              (Comment ''[if IE]'' (Some 0)) = Comment ''[if IE]'' (Some 0)"
    by code_simp
  from conditional_comment_break
         [where E = exampleEnv and S = ?S and node = ?div and index = 0 and siblings = "[]"
            and parents = "[Root [] None]" and node' = ?div' and r = CONTINUE
            and pre = "[]" and v = "''[if IE]''" and d = None and c = ?p and post = "[]",
          THEN conjunct1, rule_format]
       o ni ch i e(1)
  have a: "\<exists>pre' post' cm c'.
         [Text [CHR 0x0A, CHR '' '', CHR '' ''] None,
          Comment ''[if IE]'' (Some 1),
          Text [CHR 0x0A, CHR 0x0A, CHR '' '', CHR '' ''] None,
          Element ''p'' [] [Text ''x'' (Some 2)] (Some 1),
          Text [CHR 0x0A] None]
           = pre' @ [cm, Text [CHR 0x0A, CHR 0x0A, CHR '' '', CHR '' ''] None, c'] @ post'
         \<and> cm = Comment ''[if IE]'' (Some 1)
         \<and> isElement c' \<and> tagName c' = Some ''p'' \<and> indentLevel c' = Some 1"
    unfolding l1 d1 c1 by simp
  from conditional_comment_break
         [where E = exampleEnv and settings = exampleOptions and tree = ?tree
            and root' = ?root'
            and pre = "[]" and v = "''[if IE]''" and d = None and c = ?q and post = "[]",
          THEN conjunct2, rule_format]
       t m i e(2)
  have b: "\<exists>pre' post' cm c'.
         [Comment ''[if IE]'' (Some 0),
          Text [CHR 0x0A, CHR 0x0A] None,
          Element ''p'' [] [] (Some 0),
          Text [CHR 0x0A] None]
           = pre' @ [cm, Text [CHR 0x0A, CHR 0x0A] None, c'] @ post'
         \<and> cm = Comment ''[if IE]'' (Some 0)
         \<and> isElement c' \<and> tagName c' = Some ''p'' \<and> indentLevel c' = Some 0"
    unfolding l0 d0 c0 by simp
  from o ni i a t b show ?thesis by blast
qed

text \<open>
  C8, as the claim states it, fails: the visitor is called on the root and on the text
  nodes it has inserted itself, and neither gets an annotation.  A node is annotated by
  the visit of its parent, and the root has none.  (The tree holds no text to minify.)
\<close>

theorem annotation_counterexample:
  "transform exampleEnv exampleOptions (Root [Element ''p'' [] [] None] None)
     = Inr (Root [Element ''p'' [] [] (Some 0), Text [CHR 0x0A] None] None)
   \<and> indentLevel (Root [Element ''p'' [] [] (Some 0), Text [CHR 0x0A] None] None) = None
   \<and> indentLevel (Text [CHR 0x0A] None) = None"
  by code_simp

text \<open>
  C8, amended.  When the pass below a visited node is complete: a node that was skipped
  as white-space sensitive carries the level minus one; of any other node, every child
  it had when it was visited carries the node's level, and the text nodes inserted
  between them carry none.  The root's own annotation is left as it was.
\<close>

theorem annotations_after_pass:
  "(one E S node index siblings parents = Inr (node', SKIP)
      \<longrightarrow> indentLevel node' = Some (level S parents - 1))
   \<and> (one E S node index siblings parents = Inr (node', CONTINUE)
      \<longrightarrow> indentLevel node' = indentLevel node
          \<and> map indentLevel (filter annotated (children node'))
              = replicate (length (children node)) (Some (level S parents)))
   \<and> (transform E settings tree = Inr root' \<and> isRoot (minify E tree)
      \<longrightarrow> indentLevel root' = indentLevel (minify E tree))"
  using one_SKIP_level [of E S node index siblings parents node']
    one_children_levels [of E S node index siblings parents node']
    transform_root [of E settings tree root']
  by blast

theorem annotations_after_pass_witness:
  "one exampleEnv (format exampleOptions (Root [] None))
       (Element ''pre'' [] [Text ''x'' None] (Some 0)) 0 [] [Root [] None]
     = Inr (Element ''pre'' [] [Text ''x'' None] (Some 0), SKIP)
   \<and> Some (0::int) = Some (level (format exampleOptions (Root [] None)) [Root [] None] - 1)
   \<and> one exampleEnv (format exampleOptions (Root [] None))
       (Element ''div'' [] [Text ''a'' None, Element ''p'' [] [] None] None) 0 [] [Root [] None]
     = Inr (Element ''div'' []
              [Text ''a'' (Some 1),
               Text [CHR 0x0A, CHR '' '', CHR '' ''] None,
               Element ''p'' [] [] (Some 1),
               Text [CHR 0x0A] None] None, CONTINUE)
   \<and> map indentLevel (filter annotated
          [Text ''a'' (Some 1), Text [CHR 0x0A, CHR '' '', CHR '' ''] None,
           Element ''p'' [] [] (Some 1), Text [CHR 0x0A] None])
       = [Some (level (format exampleOptions (Root [] None)) [Root [] None]),
          Some (level (format exampleOptions (Root [] None)) [Root [] None])]
   \<and> transform exampleEnv exampleOptions (Root [Element ''p'' [] [] None] None)
       = Inr (Root [Element ''p'' [] [] (Some 0), Text [CHR 0x0A] None] None)
   \<and> indentLevel (Root [Element ''p'' [] [] (Some 0), Text [CHR 0x0A] None] None)
       = indentLevel (Root [Element ''p'' [] [] None] None)"
proof -
  let ?S = "format exampleOptions (Root [] None)"
  let ?pre = "Element ''pre'' [] [Text ''x'' None] (Some 0)"
  let ?div = "Element ''div'' [] [Text ''a'' None, Element ''p'' [] [] None] None"
  let ?div' = "Element ''div'' []
              [Text ''a'' (Some 1),
               Text [CHR 0x0A, CHR '' '', CHR '' ''] None,
               Element ''p'' [] [] (Some 1),
               Text [CHR 0x0A] None] None"
  let ?tree = "Root [Element ''p'' [] [] None] None"
  let ?root' = "Root [Element ''p'' [] [] (Some 0), Text [CHR 0x0A] None] None"
  have a: "one exampleEnv ?S ?pre 0 [] [Root [] None] = Inr (?pre, SKIP)"
    by code_simp
  have b: "one exampleEnv ?S ?div 0 [] [Root [] None] = Inr (?div', CONTINUE)"
    by code_simp
  have c: "transform exampleEnv exampleOptions ?tree = Inr ?root'"
    by code_simp
  have d: "isRoot (minify exampleEnv ?tree)" "minify exampleEnv ?tree = ?tree"
    by (simp_all add: exampleEnv_def)
  from annotations_after_pass [of exampleEnv ?S ?pre 0 "[]" "[Root [] None]" ?pre]
    annotations_after_pass [of exampleEnv ?S ?div 0 "[]" "[Root [] None]" ?div']
    annotations_after_pass [of exampleEnv ?S ?div 0 "[]" "[Root [] None]" ?div' exampleOptions ?tree ?root']
    a b c d
  show ?thesis by simp
qed

text \<open>
  C9.  The visitor rebuilds the child list of every node that is not in a white-space
  sensitive subtree.  The annotated nodes of the new list are the node's children, each once
  and in their order, with the annotation written and, below a node other than the
  root, the text values re-indented.  Every other node of the new list is a text node
  of one or two line feeds followed by copies of the indent unit, which is white space.
  Re-indenting changes text nodes only, and no character of them that is not white
  space.
\<close>

theorem rebuild_keeps_children:
  assumes "\<not> ignore E (parents @ [node])"
  shows "\<exists>node' r.
       visitor E (format settings tree) node parents siblings index = Inr (node', r)
     \<and> r \<noteq> SKIP
     \<and> filter annotated (children node')
           = map (\<lambda>c. setData (if isRoot node then c
                                else indentText (indent (format settings tree))
                                       (level (format settings tree) parents) c)
                          (level (format settings tree) parents))
                 (children node)
     \<and> (\<forall>c \<in> set (children node'). \<not> annotated c \<longrightarrow>
           (\<exists>n k. (n = 1 \<or> n = 2)
                  \<and> c = Text (replicate n (CHR 0x0A) @ repeat (indent (format settings tree)) k) None))
     \<and> list_all isSpace (indent (format settings tree))
     \<and> (\<forall>c. (\<not> isText c \<longrightarrow> indentText (indent (format settings tree))
                                   (level (format settings tree) parents) c = c)
            \<and> filter (\<lambda>x. \<not> isSpace x)
                 (toString (indentText (indent (format settings tree))
                              (level (format settings tree) parents) c))
               = filter (\<lambda>x. \<not> isSpace x) (toString c))"
proof -
  let ?S = "format settings tree"
  let ?lvl = "level ?S parents"
  let ?node = "indentComment (indent ?S) ?lvl node"
  from visitor_not_ignored [OF assms, of ?S siblings index] obtain node' r where
    v: "visitor E ?S node parents siblings index = Inr (node', r)" and r: "r \<noteq> SKIP"
    and ch: "children node' = rebuild E ?S ?lvl ?node"
    by blast
  have a: "filter annotated (children node')
           = map (\<lambda>c. setData (if isRoot node then c else indentText (indent ?S) ?lvl c) ?lvl)
                 (children node)"
    unfolding ch rebuild_annotated by (simp add: indentChildren_def)
  have b: "\<exists>n k. (n = 1 \<or> n = 2) \<and> c = Text (replicate n (CHR 0x0A) @ repeat (indent ?S) k) None"
    if "c \<in> set (children node')" "\<not> annotated c" for c
  proof -
    from rebuild_synthetic [of c E ?S ?lvl ?node] that ch
    consider "c = Text (single @ repeat (indent ?S) ?lvl) None"
      | "c = Text (double @ repeat (indent ?S) ?lvl) None"
      | "c = Text (single @ repeat (indent ?S) (?lvl - 1)) None"
      by auto
    then show ?thesis
    proof cases
      case 1
      then show ?thesis unfolding single_replicate by blast
    next
      case 2
      then show ?thesis unfolding double_replicate by blast
    next
      case 3
      then show ?thesis unfolding single_replicate by blast
    qed
  qed
  have c: "list_all isSpace (indent ?S)
     \<and> (\<forall>c. (\<not> isText c \<longrightarrow> indentText (indent ?S) ?lvl c = c)
            \<and> filter (\<lambda>x. \<not> isSpace x) (toString (indentText (indent ?S) ?lvl c))
               = filter (\<lambda>x. \<not> isSpace x) (toString c))"
    by (simp add: indent_format_space indentText_content indentText_other)
  from v r a b c show ?thesis by blast
qed

theorem rebuild_keeps_children_witness:
  "\<not> ignore exampleEnv
       ([Root [] None] @ [Element ''div'' [] [Text '' a '' None, Element ''p'' [] [] None] None])
   \<and> visitor exampleEnv
       (format exampleOptions (Root [Element ''div'' [] [Text '' a '' None, Element ''p'' [] [] None] None] None))
       (Element ''div'' [] [Text '' a '' None, Element ''p'' [] [] None] None) [Root [] None] [] 0
     = Inr (Element ''div'' []
              [Text ''a'' (Some 1),
               Text [CHR 0x0A, CHR '' '', CHR '' ''] None,
               Element ''p'' [] [] (Some 1),
               Text [CHR 0x0A] None] None, CONTINUE)
   \<and> filter annotated
         [Text ''a'' (Some 1), Text [CHR 0x0A, CHR '' '', CHR '' ''] None,
          Element ''p'' [] [] (Some 1), Text [CHR 0x0A] None]
       = [Text ''a'' (Some 1), Element ''p'' [] [] (Some 1)]
   \<and> list_all isSpace
         (indent (format exampleOptions
                    (Root [Element ''div'' [] [Text '' a '' None, Element ''p'' [] [] None] None] None)))"
proof -
  let ?div = "Element ''div'' [] [Text '' a '' None, Element ''p'' [] [] None] None"
  let ?S = "format exampleOptions (Root [?div] None)"
  let ?div' = "Element ''div'' []
              [Text ''a'' (Some 1),
               Text [CHR 0x0A, CHR '' '', CHR '' ''] None,
               Element ''p'' [] [] (Some 1),
               Text [CHR 0x0A] None] None"
  have h: "\<not> ignore exampleEnv ([Root [] None] @ [?div])"
    by code_simp
  have v: "visitor exampleEnv ?S ?div [Root [] None] [] 0 = Inr (?div', CONTINUE)"
    by code_simp
  have e: "map (\<lambda>c. setData (if isRoot ?div then c else indentText (indent ?S) (level ?S [Root [] None]) c)
                         (level ?S [Root [] None])) (children ?div)
           = [Text ''a'' (Some 1), Element ''p'' [] [] (Some 1)]"
    by code_simp
  from rebuild_keeps_children [OF h, of exampleOptions "Root [?div] None" "[]" 0] obtain node' r where
    n: "visitor exampleEnv ?S ?div [Root [] None] [] 0 = Inr (node', r)"
    and f: "filter annotated (children node')
           = map (\<lambda>c. setData (if isRoot ?div then c else indentText (indent ?S) (level ?S [Root [] None]) c)
                         (level ?S [Root [] None])) (children ?div)"
    and s: "list_all isSpace (indent ?S)"
    by blast
  from n v have "node' = ?div'" by simp
  with f e have "filter annotated
         [Text ''a'' (Some 1), Text [CHR 0x0A, CHR '' '', CHR '' ''] None,
          Element ''p'' [] [] (Some 1), Text [CHR 0x0A] None]
       = [Text ''a'' (Some 1), Element ''p'' [] [] (Some 1)]"
    by simp
  with h v s show ?thesis by blast
qed

end
